theory Spec2Isabelle
  imports Complex_Main
begin

section \<open>Regular expressions with backtracking\<close>

text \<open>
  The token rules of the language definition are JavaScript regular expressions.  The
  fragment they use is embedded as a datatype: literal characters, character classes
  (written as the string of their members), the dot, the word boundary \<open>\b\<close>,
  sequence, ordered alternation and the greedy star.  \<open>r+\<close> is \<open>r r*\<close> and \<open>r?\<close>
  is \<open>r|\<close>; \<open>Str\<close> is a literal text and \<open>Words\<close> an alternation of literal
  texts, in their order.  Characters are the code units of the line.
\<close>

datatype regex =
    Eps
  | Chr char
  | OneOf string
  | NoneOf string
  | Dot
  | WordB
  | Seq regex regex
  | Alt regex regex
  | Star regex

definition Plus :: "regex \<Rightarrow> regex" where
  "Plus r = Seq r (Star r)"

definition Opt :: "regex \<Rightarrow> regex" where
  "Opt r = Alt r Eps"

fun Str :: "string \<Rightarrow> regex" where
  "Str [] = Eps"
| "Str [c] = Chr c"
| "Str (c # cs) = Seq (Chr c) (Str cs)"

fun Seqs :: "regex list \<Rightarrow> regex" where
  "Seqs [] = Eps"
| "Seqs [r] = r"
| "Seqs (r # rs) = Seq r (Seqs rs)"

fun Alts :: "regex \<Rightarrow> regex list \<Rightarrow> regex" where
  "Alts r [] = r"
| "Alts r (r' # rs) = Alt r (Alts r' rs)"

definition lowerChars :: string where
  "lowerChars = ''abcdefghijklmnopqrstuvwxyz''"

definition upperChars :: string where
  "upperChars = ''ABCDEFGHIJKLMNOPQRSTUVWXYZ''"

definition digitChars :: string where
  "digitChars = ''0123456789''"

text \<open>The class \<open>\w\<close>, which also decides \<open>\b\<close>.\<close>

definition wordChars :: string where
  "wordChars = lowerChars @ upperChars @ digitChars @ ''_''"

definition lineTerminators :: string where
  "lineTerminators = [CHR 0x0A, CHR 0x0D]"

text \<open>
  A cursor of the matcher is the character before it, if any, and the text after it.
\<close>

type_synonym cursor = "char option \<times> string"

definition wordBefore :: "cursor \<Rightarrow> bool" where
  "wordBefore x = (case fst x of None \<Rightarrow> False | Some c \<Rightarrow> c \<in> set wordChars)"

definition wordAfter :: "cursor \<Rightarrow> bool" where
  "wordAfter x = (case snd x of [] \<Rightarrow> False | c # _ \<Rightarrow> c \<in> set wordChars)"

definition consume :: "(char \<Rightarrow> bool) \<Rightarrow> cursor \<Rightarrow> cursor list" where
  "consume ok x = (case snd x of [] \<Rightarrow> [] | c # cs \<Rightarrow> if ok c then [(Some c, cs)] else [])"

text \<open>
  \<open>matches r x\<close> lists the cursors at which a match of \<open>r\<close> that starts at \<open>x\<close>
  can end, in the order in which a backtracking matcher tries them: the left alternative
  before the right one, one more iteration of a star before stopping.  An iteration of a
  star that consumes nothing is not continued.  The head of the list is the match that
  JavaScript reports.
\<close>

function matches :: "regex \<Rightarrow> cursor \<Rightarrow> cursor list" where
  "matches Eps x = [x]"
| "matches (Chr c) x = consume (\<lambda>d. d = c) x"
| "matches (OneOf cs) x = consume (\<lambda>d. d \<in> set cs) x"
| "matches (NoneOf cs) x = consume (\<lambda>d. d \<notin> set cs) x"
| "matches Dot x = consume (\<lambda>d. d \<notin> set lineTerminators) x"
| "matches WordB x = (if wordBefore x \<noteq> wordAfter x then [x] else [])"
| "matches (Seq a b) x = concat (map (matches b) (matches a x))"
| "matches (Alt a b) x = matches a x @ matches b x"
| "matches (Star a) x =
     concat (map (\<lambda>y. if length (snd y) < length (snd x) then matches (Star a) y else [])
               (matches a x)) @ [x]"
  by pat_completeness auto
termination
  by (relation "measures [\<lambda>(r, x). size r, \<lambda>(r, x). length (snd x)]") auto

declare matches.simps(9) [simp del]

text \<open>
  \<open>restOfLine.match(regex)\<close> for a regular expression compiled as \<open>^(?:r)\<close>: the
  matched text, if there is a match at the start of the text.
\<close>

definition regexMatch :: "regex \<Rightarrow> string \<Rightarrow> string option" where
  "regexMatch r restOfLine =
     (case matches r (None, restOfLine) of
        [] \<Rightarrow> None
      | y # _ \<Rightarrow> Some (take (length restOfLine - length (snd y)) restOfLine))"

section \<open>The Monarch language definition of Antimony\<close>

text \<open>
  An action is a token class, or a \<open>cases\<close> table on the matched text with its
  \<open>@default\<close> class.
\<close>

datatype action = Token string | Cases "(string \<times> string) list" string

type_synonym rule = "regex \<times> action"

record language =
  defaultToken :: "string option"
  tokenizer :: "(string \<times> rule list) list"

text \<open>
  The source defines two states, \<open>root\<close> and \<open>whitespace\<close>, and no \<open>defaultToken\<close>.
  The rules of \<open>root\<close>, in the order of the source:

  \<^verbatim>\<open>[/\/\/.*/, 'comment']\<close>

  \<^verbatim>\<open>[/"[^"]*"/, 'string']\<close>

  \<^verbatim>\<open>[/\(|\)/, 'connected-parentheses']\<close>

  \<^verbatim>\<open>[/=>|->/, 'transform']\<close>

  \<^verbatim>\<open>[/=|:=/, 'assign']\<close>

  \<^verbatim>\<open>['\\-|\\+|\\*|\\/|\\^|\\;', 'operator']\<close>

  \<^verbatim>\<open>['\\b(at|in|import|has)\\b', 'keywords']\<close>

  \<^verbatim>\<open>[/(?:identity|is|model_source|...|hasInstance|instance)/, 'annotation']\<close>

  \<^verbatim>\<open>[/\b[a-zA-Z0-9_]+\:/, 'react-remov']\<close>

  \<^verbatim>\<open>[/@?[a-zA-Z][\w$]*/, { cases: { const: 'const', ..., '@default': 'other' } }]\<close>

  \<^verbatim>\<open>[/\b(?:\d+(\.\d*)?|\.\d+|0[xX][0-9a-fA-F]+|0o[0-7]+|0b[01]+|\d+[eE][-+]?\d+|\d+[eE][-+]?\d+f|[-+]?\d+f)\b/, 'number']\<close>

  The only rule of \<open>whitespace\<close> is \<^verbatim>\<open>[/[ \t\r\n]+/, 'white']\<close>; no rule of
  \<open>root\<close> includes or enters that state.
\<close>

fun Words :: "string list \<Rightarrow> regex" where
  "Words [] = OneOf []"
| "Words [k] = Str k"
| "Words (k # ks) = Alt (Str k) (Words ks)"

definition commentRegex :: regex where
  "commentRegex = Seq (Str ''//'') (Star Dot)"

definition stringRegex :: regex where
  "stringRegex = Seqs [Chr (CHR 0x22), Star (NoneOf [CHR 0x22]), Chr (CHR 0x22)]"

definition parenthesesRegex :: regex where
  "parenthesesRegex = Alt (Chr CHR ''('') (Chr CHR '')'')"

definition transformRegex :: regex where
  "transformRegex = Alt (Str ''=>'') (Str ''->'')"

definition assignRegex :: regex where
  "assignRegex = Alt (Chr CHR ''='') (Str '':='')"

definition operatorRegex :: regex where
  "operatorRegex = Words [''-'', ''+'', ''*'', ''/'', ''^'', '';'']"

definition keywordNames :: "string list" where
  "keywordNames = [''at'', ''in'', ''import'', ''has'']"

definition keywordsRegex :: regex where
  "keywordsRegex = Seqs [WordB, Words keywordNames, WordB]"

definition annotationNames :: "string list" where
  "annotationNames =
     [''identity'', ''is'', ''model_source'', ''biological_entity_is'', ''hasPart'',
      ''isPartOf'', ''parthood'', ''part'', ''isVersionOf'', ''hypernym'',
      ''biological_system'', ''hasVersion'', ''version'', ''isHomologTo'', ''homolog'',
      ''isDescribedBy'', ''description'', ''publication'', ''isEncodedBy'', ''encoder'',
      ''encodes'', ''encodement'', ''occursIn'', ''container'', ''hasProperty'',
      ''property'', ''isPropertyOf'', ''propertyBearer'', ''hasTaxon'', ''taxon'',
      ''sboTerm'', ''model_entity_is'', ''origin'', ''isDerivedFrom'', ''hasInstance'',
      ''instance'']"

definition annotationRegex :: regex where
  "annotationRegex = Words annotationNames"

definition reactionRegex :: regex where
  "reactionRegex =
     Seqs [WordB, Plus (OneOf (lowerChars @ upperChars @ digitChars @ ''_'')), Chr CHR '':'']"

definition identifierRegex :: regex where
  "identifierRegex =
     Seqs [Opt (Chr CHR ''@''), OneOf (lowerChars @ upperChars), Star (OneOf (wordChars @ ''$''))]"

definition declaredKinds :: "string list" where
  "declaredKinds =
     [''const'', ''unit'', ''var'', ''species'', ''function'', ''model'', ''end'',
      ''compartment'']"

definition identifierCases :: action where
  "identifierCases = Cases (map (\<lambda>k. (k, k)) declaredKinds) ''other''"

definition numberRegex :: regex where
  "numberRegex =
     Seqs [WordB,
       Alts (Seq (Plus (OneOf digitChars)) (Opt (Seq (Chr CHR ''.'') (Star (OneOf digitChars)))))
         [Seq (Chr CHR ''.'') (Plus (OneOf digitChars)),
          Seqs [Chr CHR ''0'', OneOf ''xX'', Plus (OneOf (digitChars @ ''abcdefABCDEF''))],
          Seqs [Str ''0o'', Plus (OneOf ''01234567'')],
          Seqs [Str ''0b'', Plus (OneOf ''01'')],
          Seqs [Plus (OneOf digitChars), OneOf ''eE'', Opt (OneOf ''-+''), Plus (OneOf digitChars)],
          Seqs [Plus (OneOf digitChars), OneOf ''eE'', Opt (OneOf ''-+''), Plus (OneOf digitChars),
                Chr CHR ''f''],
          Seqs [Opt (OneOf ''-+''), Plus (OneOf digitChars), Chr CHR ''f'']],
       WordB]"

definition root :: "rule list" where
  "root =
     [(commentRegex, Token ''comment''),
      (stringRegex, Token ''string''),
      (parenthesesRegex, Token ''connected-parentheses''),
      (transformRegex, Token ''transform''),
      (assignRegex, Token ''assign''),
      (operatorRegex, Token ''operator''),
      (keywordsRegex, Token ''keywords''),
      (annotationRegex, Token ''annotation''),
      (reactionRegex, Token ''react-remov''),
      (identifierRegex, identifierCases),
      (numberRegex, Token ''number'')]"

definition whitespace :: "rule list" where
  "whitespace = [(Plus (OneOf [CHR '' '', CHR 0x09, CHR 0x0D, CHR 0x0A]), Token ''white'')]"

definition antimonyLanguage :: language where
  "antimonyLanguage =
     \<lparr>defaultToken = None,
      tokenizer = [(''root'', root), (''whitespace'', whitespace)]\<rparr>"

section \<open>The Monarch tokenizer\<close>

text \<open>
  The language definition is run by the Monarch tokenizer of the editor component.  The
  tokenizer works line by line.  It starts in the first state of the definition; no rule
  of this definition changes the state, so every line is tokenized in that state.  At
  each offset the rules of the state are tried in order against the rest of the line,
  and the first rule that matches decides the matched text and the action.  When no rule
  matches, one character is consumed and given the default token class, which is
  \<open>source\<close> unless the definition sets \<open>defaultToken\<close>.  A rule that matches the empty
  text on a non-empty line without changing the state makes the tokenizer throw
  (``no progress in tokenizer'').  An entry of the result is one such step: its offset in
  the line, the text consumed and the token class.  Classes are given without the
  postfix, a dot and the language id, that the engine appends to every non-empty class.
\<close>

record token =
  offset :: nat
  text' :: string
  type'' :: string

datatype lexer_error = NoProgress | UndefinedState

definition lexerDefaultToken :: "language \<Rightarrow> string" where
  "lexerDefaultToken lang = (case defaultToken lang of None \<Rightarrow> ''source'' | Some t \<Rightarrow> t)"

definition startRules :: "language \<Rightarrow> rule list option" where
  "startRules lang = (case tokenizer lang of [] \<Rightarrow> None | (_, rules) # _ \<Rightarrow> Some rules)"

fun firstMatch :: "rule list \<Rightarrow> string \<Rightarrow> (string \<times> action) option" where
  "firstMatch [] restOfLine = None"
| "firstMatch ((regex, act) # rules) restOfLine =
     (case regexMatch regex restOfLine of
        Some matched \<Rightarrow> Some (matched, act)
      | None \<Rightarrow> firstMatch rules restOfLine)"

fun applyAction :: "action \<Rightarrow> string \<Rightarrow> string" where
  "applyAction (Token t) matched = t"
| "applyAction (Cases cs dflt) matched =
     (case map_of cs matched of Some t \<Rightarrow> t | None \<Rightarrow> dflt)"

function tokenizeFrom :: "string \<Rightarrow> rule list \<Rightarrow> nat \<Rightarrow> string \<Rightarrow> lexer_error + token list" where
  "tokenizeFrom dflt rules pos [] = Inr []"
| "tokenizeFrom dflt rules pos (c # cs) =
     (case firstMatch rules (c # cs) of
        None \<Rightarrow>
          (case tokenizeFrom dflt rules (pos + 1) cs of
             Inl e \<Rightarrow> Inl e
           | Inr ts \<Rightarrow> Inr (\<lparr>offset = pos, text' = [c], type'' = dflt\<rparr> # ts))
      | Some (matched, act) \<Rightarrow>
          if matched = [] then Inl NoProgress
          else
            (case tokenizeFrom dflt rules (pos + length matched)
                    (drop (length matched) (c # cs)) of
               Inl e \<Rightarrow> Inl e
             | Inr ts \<Rightarrow>
                 Inr (\<lparr>offset = pos, text' = matched, type'' = applyAction act matched\<rparr> # ts)))"
  by pat_completeness auto
termination
  by (relation "measure (\<lambda>(dflt, rules, pos, restOfLine). length restOfLine)") auto

text \<open>
  The tokenizer does not run the rules on a line whose length reaches the editor's
  \<open>maxTokenizationLineLength\<close>, which is 20000 unless the editor is configured
  otherwise: such a line is one token at offset 0 with the empty class.
\<close>

definition maxTokenizationLineLength :: nat where
  "maxTokenizationLineLength = 20000"

definition nullTokenize :: "string \<Rightarrow> token list" where
  "nullTokenize line = [\<lparr>offset = 0, text' = line, type'' = []\<rparr>]"

definition tokenizeLine :: "language \<Rightarrow> string \<Rightarrow> lexer_error + token list" where
  "tokenizeLine lang line =
     (if maxTokenizationLineLength \<le> length line then Inr (nullTokenize line)
      else
        (case startRules lang of
           None \<Rightarrow> Inl UndefinedState
         | Some rules \<Rightarrow> tokenizeFrom (lexerDefaultToken lang) rules 0 line))"

text \<open>
  The lines of a text: the editor's text model breaks lines at \<open>\r\n\<close>, \<open>\n\<close> and
  \<open>\r\<close>.  The result is the first line and the lines after it.
\<close>

fun splitLines :: "string \<Rightarrow> string \<times> string list" where
  "splitLines [] = ([], [])"
| "splitLines (c # cs) =
     (case splitLines cs of
        (l, ls) \<Rightarrow>
          if c = CHR 0x0A then ([], l # ls)
          else if c = CHR 0x0D then
            (case cs of
               [] \<Rightarrow> ([], l # ls)
             | d # _ \<Rightarrow> if d = CHR 0x0A then (l, ls) else ([], l # ls))
          else (c # l, ls))"

definition linesOf :: "string \<Rightarrow> string list" where
  "linesOf s = (case splitLines s of (l, ls) \<Rightarrow> l # ls)"

text \<open>
  The tokens collector of the editor records a token, as its start offset and its class,
  only when the class differs from the class recorded last on the line: a run of steps
  of one class is one token that starts at the offset of the first step.
\<close>

fun emit :: "string option \<Rightarrow> token list \<Rightarrow> (nat \<times> string) list" where
  "emit lastTokenType [] = []"
| "emit lastTokenType (t # ts) =
     (if lastTokenType = Some (type'' t) then emit lastTokenType ts
      else (offset t, type'' t) # emit (Some (type'' t)) ts)"

definition lineTokens :: "language \<Rightarrow> string \<Rightarrow> lexer_error + (nat \<times> string) list" where
  "lineTokens lang line =
     (case tokenizeLine lang line of Inl e \<Rightarrow> Inl e | Inr ts \<Rightarrow> Inr (emit None ts))"

definition tokenize :: "language \<Rightarrow> string \<Rightarrow> (lexer_error + token list) list" where
  "tokenize lang s = map (tokenizeLine lang) (linesOf s)"

text \<open>
  The least number of characters a match of a regular expression consumes, and the
  property that consecutive tokens tile the line from a given offset.
\<close>

fun minLen :: "regex \<Rightarrow> nat" where
  "minLen Eps = 0"
| "minLen (Chr c) = 1"
| "minLen (OneOf cs) = 1"
| "minLen (NoneOf cs) = 1"
| "minLen Dot = 1"
| "minLen WordB = 0"
| "minLen (Seq a b) = minLen a + minLen b"
| "minLen (Alt a b) = min (minLen a) (minLen b)"
| "minLen (Star a) = 0"

fun tiled :: "nat \<Rightarrow> token list \<Rightarrow> bool" where
  "tiled pos [] = True"
| "tiled pos (t # ts) = (offset t = pos \<and> text' t \<noteq> [] \<and> tiled (pos + length (text' t)) ts)"



text \<open>
  Whether a regular expression can match without consuming a character, and the
  characters with which a match that consumes one can begin.
\<close>

fun nullable :: "regex \<Rightarrow> bool" where
  "nullable Eps = True"
| "nullable (Chr c) = False"
| "nullable (OneOf cs) = False"
| "nullable (NoneOf cs) = False"
| "nullable Dot = False"
| "nullable WordB = True"
| "nullable (Seq a b) = (nullable a \<and> nullable b)"
| "nullable (Alt a b) = (nullable a \<or> nullable b)"
| "nullable (Star a) = True"

fun canStart :: "regex \<Rightarrow> char \<Rightarrow> bool" where
  "canStart Eps c = False"
| "canStart (Chr d) c = (c = d)"
| "canStart (OneOf cs) c = (c \<in> set cs)"
| "canStart (NoneOf cs) c = (c \<notin> set cs)"
| "canStart Dot c = (c \<notin> set lineTerminators)"
| "canStart WordB c = False"
| "canStart (Seq a b) c = (canStart a c \<or> (nullable a \<and> canStart b c))"
| "canStart (Alt a b) c = (canStart a c \<or> canStart b c)"
| "canStart (Star a) c = canStart a c"

text \<open>The character before the cursor after a text has been consumed.\<close>

definition lastc :: "char option \<Rightarrow> string \<Rightarrow> char option" where
  "lastc p u = (if u = [] then p else Some (last u))"

text \<open>
  The words of the tokenizer's classes, and whether a text begins with one of the
  annotation names.
\<close>

definition startsWith :: "string \<Rightarrow> string \<Rightarrow> bool" where
  "startsWith k s = (take (length k) s = k)"

definition annotationPrefixed :: "string \<Rightarrow> bool" where
  "annotationPrefixed w = list_ex (\<lambda>k. startsWith k w) annotationNames"

text \<open>
  The annotation names that do not begin with a name listed before them in the
  alternation.
\<close>

definition wholeAnnotationNames :: "string list" where
  "wholeAnnotationNames =
     filter (\<lambda>k. \<not> list_ex (\<lambda>j. startsWith j k) (takeWhile (\<lambda>j. j \<noteq> k) annotationNames))
       annotationNames"

text \<open>
  The step of the tokenizer at the rest of a line: the text it consumes and the class it
  gives to it.
\<close>

definition stepAt :: "string \<Rightarrow> rule list \<Rightarrow> string \<Rightarrow> string \<times> string" where
  "stepAt dflt rules restOfLine =
     (case firstMatch rules restOfLine of
        None \<Rightarrow> (take 1 restOfLine, dflt)
      | Some (matched, act) \<Rightarrow> (matched, applyAction act matched))"


section \<open>JavaScript numbers\<close>

text \<open>
  A JavaScript \<open>number\<close> is either \<open>NaN\<close>, one of the two infinities, or a finite
  double.  Only the order and the equality of numbers are used by the code below, so a
  finite double is represented by the real number it denotes.  Every comparison with
  \<open>NaN\<close> is false, and \<open>NaN === NaN\<close> is false as well.
\<close>

datatype jsnumber = NaN | NegInfinity | Finite real | PosInfinity

fun js_lt :: "jsnumber \<Rightarrow> jsnumber \<Rightarrow> bool" where
  "js_lt NaN _ = False"
| "js_lt _ NaN = False"
| "js_lt PosInfinity _ = False"
| "js_lt _ NegInfinity = False"
| "js_lt NegInfinity _ = True"
| "js_lt (Finite a) (Finite b) = (a < b)"
| "js_lt (Finite a) PosInfinity = True"

fun js_le :: "jsnumber \<Rightarrow> jsnumber \<Rightarrow> bool" where
  "js_le NaN _ = False"
| "js_le _ NaN = False"
| "js_le NegInfinity _ = True"
| "js_le _ PosInfinity = True"
| "js_le PosInfinity _ = False"
| "js_le _ NegInfinity = False"
| "js_le (Finite a) (Finite b) = (a \<le> b)"

definition js_ge :: "jsnumber \<Rightarrow> jsnumber \<Rightarrow> bool" where
  "js_ge a b = js_le b a"

definition js_eq :: "jsnumber \<Rightarrow> jsnumber \<Rightarrow> bool" where
  "js_eq a b = (a \<noteq> NaN \<and> a = b)"

section \<open>The recommendation modal: cutoff input\<close>

text \<open>
  \<open>const [cutoff, setCutoff] = useState<number>(0.01)\<close>: the state starts at the
  literal \<open>0.01\<close>.
\<close>

definition initialCutoff :: jsnumber where
  "initialCutoff = Finite (1 / 100)"

text \<open>
  \<^verbatim>\<open>const handleCutoff = (event) => {\<close>

  \<^verbatim>\<open>  let value = parseFloat(event.target.value);\<close>

  \<^verbatim>\<open>  if (value >= 0.0 && value <= 1.0) { setCutoff(value); }\<close>

  \<^verbatim>\<open>};\<close>

  \<open>handleCutoff\<close> parses the text of the input field with the built-in \<open>parseFloat\<close>
  and stores the value only when it lies between 0.0 and 1.0.  The built-in is a
  parameter of the model; the function returns the cutoff state after the event.  The
  literal \<open>0.01\<close> of the initial state is taken at its decimal value; the double
  nearest to it lies in the same range.
\<close>

definition handleCutoff :: "(string \<Rightarrow> jsnumber) \<Rightarrow> string \<Rightarrow> jsnumber \<Rightarrow> jsnumber" where
  "handleCutoff parseFloat event_target_value cutoff =
     (let value = parseFloat event_target_value
      in if js_ge value (Finite 0) \<and> js_le value (Finite 1) then value else cutoff)"

text \<open>The cutoff state after a sequence of change events, oldest first.\<close>

fun cutoffAfter :: "(string \<Rightarrow> jsnumber) \<Rightarrow> jsnumber \<Rightarrow> string list \<Rightarrow> jsnumber" where
  "cutoffAfter parseFloat cutoff [] = cutoff"
| "cutoffAfter parseFloat cutoff (e # es) =
     cutoffAfter parseFloat (handleCutoff parseFloat e cutoff) es"

definition inUnitRange :: "jsnumber \<Rightarrow> bool" where
  "inUnitRange c = (case c of Finite r \<Rightarrow> 0 \<le> r \<and> r \<le> 1 | _ \<Rightarrow> False)"

section \<open>The recommendation modal: low matches\<close>

record Recommendation =
  type' :: string
  id' :: string
  displayName :: string
  metaId :: string
  annotation :: string
  annotationLabel :: string
  matchScore :: jsnumber
  existing :: jsnumber
  updateAnnotation :: string
  isLowMatch :: bool

datatype js_error = TypeError

text \<open>
  \<^verbatim>\<open>recomTable.reduce((groups, rec) => {\<close>

  \<^verbatim>\<open>  if (!groups[rec.id]) { groups[rec.id] = []; }\<close>

  \<^verbatim>\<open>  groups[rec.id].push(rec);\<close>

  \<^verbatim>\<open>  return groups; }, {})\<close>

  The groups are collected in an object literal \<open>{}\<close>.  Reading a property that the
  object inherits from \<open>Object.prototype\<close> yields a truthy value that has no \<open>push\<close>,
  so \<open>groups[rec.id].push(rec)\<close> throws a \<open>TypeError\<close> for these ids.
\<close>

definition objectPrototypeKeys :: "string list" where
  "objectPrototypeKeys =
     [''constructor'', ''__defineGetter__'', ''__defineSetter__'', ''hasOwnProperty'',
      ''__lookupGetter__'', ''__lookupSetter__'', ''isPrototypeOf'',
      ''propertyIsEnumerable'', ''toString'', ''valueOf'', ''__proto__'',
      ''toLocaleString'']"

type_synonym groups = "string \<rightharpoonup> Recommendation list"

definition groupStep :: "groups \<Rightarrow> Recommendation \<Rightarrow> js_error + groups" where
  "groupStep groups rec =
     (case groups (id' rec) of
        None \<Rightarrow>
          if id' rec \<in> set objectPrototypeKeys then Inl TypeError
          else Inr (groups(id' rec \<mapsto> [rec]))
      | Some g \<Rightarrow> Inr (groups(id' rec \<mapsto> g @ [rec])))"

fun reduceGroups :: "groups \<Rightarrow> Recommendation list \<Rightarrow> js_error + groups" where
  "reduceGroups groups [] = Inr groups"
| "reduceGroups groups (rec # recs) =
     (case groupStep groups rec of
        Inl e \<Rightarrow> Inl e
      | Inr groups' \<Rightarrow> reduceGroups groups' recs)"

definition groupedRecommendations :: "Recommendation list \<Rightarrow> js_error + groups" where
  "groupedRecommendations recomTable = reduceGroups Map.empty recomTable"

text \<open>
  \<^verbatim>\<open>const checkLowMatch = (group) => {\<close>

  \<^verbatim>\<open>  const existingZeros = group.filter((rec) => rec.existing === 0);\<close>

  \<^verbatim>\<open>  return group.map((rec) => {\<close>

  \<^verbatim>\<open>    if (rec.existing === 1) {\<close>

  \<^verbatim>\<open>      const hasLowMatch = existingZeros.some(\<close>

  \<^verbatim>\<open>        (existingZero) => rec.matchScore < existingZero.matchScore);\<close>

  \<^verbatim>\<open>      return { ...rec, isLowMatch: hasLowMatch };\<close>

  \<^verbatim>\<open>    }\<close>

  \<^verbatim>\<open>    return rec; }); };\<close>
\<close>

definition checkLowMatch :: "Recommendation list \<Rightarrow> Recommendation list" where
  "checkLowMatch group' =
     (let existingZeros = filter (\<lambda>rec. js_eq (existing rec) (Finite 0)) group'
      in map (\<lambda>rec.
           if js_eq (existing rec) (Finite 1)
           then (let hasLowMatch =
                       list_ex (\<lambda>existingZero. js_lt (matchScore rec) (matchScore existingZero))
                         existingZeros
                 in rec\<lparr>isLowMatch := hasLowMatch\<rparr>)
           else rec) group')"

definition getRecommendationKey :: "Recommendation \<Rightarrow> string" where
  "getRecommendationKey rec = id' rec @ ''-'' @ annotation rec"

text \<open>
  \<^verbatim>\<open>const processedRecommendations = recomTable.map((rec) => {\<close>

  \<^verbatim>\<open>  const group = groupedRecommendations[rec.id];\<close>

  \<^verbatim>\<open>  const checkedGroup = checkLowMatch(group);\<close>

  \<^verbatim>\<open>  const updatedRec = checkedGroup.find(\<close>

  \<^verbatim>\<open>    (r) => getRecommendationKey(r) === getRecommendationKey(rec));\<close>

  \<^verbatim>\<open>  return { ...rec, isLowMatch: updatedRec?.isLowMatch || false }; });\<close>

  One step of \<open>recomTable.map\<close> in \<open>processedRecommendations\<close>.  A missing group would
  make \<open>group.filter\<close> throw; \<open>updatedRec?.isLowMatch || false\<close> is \<open>False\<close> when
  \<open>find\<close> returns nothing.
\<close>

definition processRecommendation :: "groups \<Rightarrow> Recommendation \<Rightarrow> js_error + Recommendation" where
  "processRecommendation groups rec =
     (case groups (id' rec) of
        None \<Rightarrow> Inl TypeError
      | Some group' \<Rightarrow>
          (let checkedGroup = checkLowMatch group';
               updatedRec = find (\<lambda>r. getRecommendationKey r = getRecommendationKey rec) checkedGroup
           in Inr (rec\<lparr>isLowMatch := (case updatedRec of None \<Rightarrow> False | Some u \<Rightarrow> isLowMatch u)\<rparr>)))"

fun mapRecommendations :: "groups \<Rightarrow> Recommendation list \<Rightarrow> js_error + Recommendation list" where
  "mapRecommendations groups [] = Inr []"
| "mapRecommendations groups (rec # recs) =
     (case processRecommendation groups rec of
        Inl e \<Rightarrow> Inl e
      | Inr rec' \<Rightarrow>
          (case mapRecommendations groups recs of
             Inl e \<Rightarrow> Inl e
           | Inr recs' \<Rightarrow> Inr (rec' # recs')))"

definition processedRecommendations :: "Recommendation list \<Rightarrow> js_error + Recommendation list" where
  "processedRecommendations recomTable =
     (case groupedRecommendations recomTable of
        Inl e \<Rightarrow> Inl e
      | Inr groups \<Rightarrow> mapRecommendations groups recomTable)"


text \<open>
  The function that \<open>checkLowMatch\<close> maps over a group, given the group's
  \<open>existingZeros\<close>; it is used to state intermediate results.
\<close>

definition lowMatchOf :: "Recommendation list \<Rightarrow> Recommendation \<Rightarrow> Recommendation" where
  "lowMatchOf existingZeros rec =
     (if js_eq (existing rec) (Finite 1)
      then rec\<lparr>isLowMatch :=
             list_ex (\<lambda>existingZero. js_lt (matchScore rec) (matchScore existingZero)) existingZeros\<rparr>
      else rec)"

text \<open>Sample inputs used to exercise the theorems below.\<close>

definition sampleParseFloat :: "string \<Rightarrow> jsnumber" where
  "sampleParseFloat s =
     (if s = ''0.5'' then Finite (1 / 2) else if s = ''2'' then Finite 2 else NaN)"

definition sampleRow :: "string \<Rightarrow> string \<Rightarrow> real \<Rightarrow> real \<Rightarrow> Recommendation" where
  "sampleRow i a score ex =
     \<lparr>type' = ''species'', id' = i, displayName = i, metaId = ''meta'', annotation = a,
      annotationLabel = ''label'', matchScore = Finite score, existing = Finite ex,
      updateAnnotation = ''keep'', isLowMatch = False\<rparr>"

definition sampleTable :: "Recommendation list" where
  "sampleTable =
     [sampleRow ''S1'' ''CHEBI:1'' (1 / 10) 1,
      sampleRow ''S1'' ''CHEBI:2'' (9 / 10) 0,
      sampleRow ''S2'' ''CHEBI:3'' (5 / 10) 1]"

section \<open>The position index: annotations of a symbol\<close>

text \<open>
  The data model of annotation statements, as the specification gives it: positions are
  (line, column) pairs ordered line major, column minor; an annotation statement has a
  subject name, a predicate, a resource and a range; the annotations of a model are kept
  in document order.
\<close>

record Position =
  line :: nat
  column :: nat

record Range =
  start :: Position
  end' :: Position

record AnnotationStatement =
  subjectName :: string
  predicate :: string
  resourceURI :: string
  range' :: Range

definition positionLess :: "Position \<Rightarrow> Position \<Rightarrow> bool" where
  "positionLess p q = (line p < line q \<or> (line p = line q \<and> column p < column q))"

text \<open>
  Modelled from the spec: the lookups \<open>annotationsFor\<close> and \<open>latestAnnotationFor\<close>
  of the position index and the navigation that uses them.  The editor component that
  implements ``Navigate to Edit Annotation'' is not among the sources; only its test is.
  \<open>annotationsFor\<close> returns all annotation statements whose subject name equals the
  name, in document order; \<open>latestAnnotationFor\<close> returns the last of them, if any;
  the navigation reveals and selects the line on which that statement starts.
\<close>

definition annotationsFor :: "string \<Rightarrow> AnnotationStatement list \<Rightarrow> AnnotationStatement list" where
  "annotationsFor name annotations = filter (\<lambda>a. subjectName a = name) annotations"

fun latestFrom :: "string \<Rightarrow> AnnotationStatement option \<Rightarrow> AnnotationStatement list
    \<Rightarrow> AnnotationStatement option" where
  "latestFrom name found [] = found"
| "latestFrom name found (a # as) =
     latestFrom name (if subjectName a = name then Some a else found) as"

definition latestAnnotationFor :: "string \<Rightarrow> AnnotationStatement list \<Rightarrow> AnnotationStatement option" where
  "latestAnnotationFor name annotations = latestFrom name None annotations"

definition navigateToAnnotation :: "string \<Rightarrow> AnnotationStatement list \<Rightarrow> nat option" where
  "navigateToAnnotation name annotations =
     map_option (\<lambda>a. line (start (range' a))) (latestAnnotationFor name annotations)"

text \<open>A sample model: \<open>ProteinD\<close> is annotated on lines 19 and 66.\<close>

definition annotationAt :: "string \<Rightarrow> string \<Rightarrow> nat \<Rightarrow> AnnotationStatement" where
  "annotationAt subject uri l =
     \<lparr>subjectName = subject, predicate = ''identity'', resourceURI = uri,
      range' = \<lparr>start = \<lparr>line = l, column = 1\<rparr>, end' = \<lparr>line = l, column = 80\<rparr>\<rparr>\<rparr>"

definition sampleAnnotations :: "AnnotationStatement list" where
  "sampleAnnotations =
     [annotationAt ''ProteinD'' ''urn:first'' 19,
      annotationAt ''ProteinE'' ''urn:other'' 20,
      annotationAt ''ProteinD'' ''urn:second'' 66]"


section \<open>Results on the tokenizer\<close>

subsection \<open>Every match of a rule consumes text\<close>

lemma consume_shorter:
  "y \<in> set (consume ok x) \<Longrightarrow> length (snd y) + 1 \<le> length (snd x)"
  by (cases x) (auto simp: consume_def split: list.splits if_splits)

lemma matches_minLen:
  "y \<in> set (matches r x) \<Longrightarrow> length (snd y) + minLen r \<le> length (snd x)"
proof (induction r x arbitrary: y rule: matches.induct)
  case (7 a b x)
  then obtain z where z: "z \<in> set (matches a x)" and y: "y \<in> set (matches b z)"
    by auto
  have "length (snd z) + minLen a \<le> length (snd x)" using "7.IH"(1) z .
  moreover have "length (snd y) + minLen b \<le> length (snd z)" using "7.IH"(2) z y .
  ultimately show ?case by simp
next
  case (8 a b x)
  from "8.prems" have "y \<in> set (matches a x) \<or> y \<in> set (matches b x)" by simp
  then show ?case
  proof
    assume "y \<in> set (matches a x)"
    then have "length (snd y) + minLen a \<le> length (snd x)" by (rule "8.IH"(1))
    then show ?thesis by simp
  next
    assume "y \<in> set (matches b x)"
    then have "length (snd y) + minLen b \<le> length (snd x)" by (rule "8.IH"(2))
    then show ?thesis by simp
  qed
next
  case (9 a x)
  from "9.prems" have "y = x \<or> (\<exists>z\<in>set (matches a x).
      length (snd z) < length (snd x) \<and> y \<in> set (matches (Star a) z))"
    by (subst (asm) matches.simps(9)) (auto split: if_splits)
  then show ?case
  proof
    assume "y = x"
    then show ?thesis by simp
  next
    assume "\<exists>z\<in>set (matches a x).
      length (snd z) < length (snd x) \<and> y \<in> set (matches (Star a) z)"
    then obtain z where z: "z \<in> set (matches a x)"
      and l: "length (snd z) < length (snd x)" and y: "y \<in> set (matches (Star a) z)"
      by blast
    have "length (snd y) + minLen (Star a) \<le> length (snd z)" using "9.IH"(2) z l y .
    with l show ?thesis by simp
  qed
next
  case (6 x)
  then show ?case by (simp split: if_splits)
qed (auto dest: consume_shorter)

lemma regexMatch_nonempty:
  assumes "regexMatch r s = Some m" and "1 \<le> minLen r"
  shows "m \<noteq> [] \<and> length m \<le> length s \<and> m = take (length m) s"
proof -
  from assms(1) obtain y ys where y: "matches r (None, s) = y # ys"
    and m: "m = take (length s - length (snd y)) s"
    by (auto simp: regexMatch_def split: list.splits)
  have "y \<in> set (matches r (None, s))" using y by simp
  then have "length (snd y) + minLen r \<le> length s" by (auto dest: matches_minLen)
  with assms(2) m show ?thesis by auto
qed

lemma firstMatch_nonempty:
  "firstMatch rules s = Some (m, act) \<Longrightarrow> list_all (\<lambda>(r, a). 1 \<le> minLen r) rules \<Longrightarrow>
   m \<noteq> [] \<and> length m \<le> length s \<and> m = take (length m) s"
proof (induction rules)
  case Nil
  then show ?case by simp
next
  case (Cons ra rules)
  obtain r a where ra: "ra = (r, a)" by (cases ra)
  show ?case
  proof (cases "regexMatch r s")
    case None
    with Cons ra show ?thesis by simp
  next
    case (Some m')
    with Cons.prems ra have "m' = m" and "1 \<le> minLen r" by simp_all
    with Some show ?thesis using regexMatch_nonempty by blast
  qed
qed

lemma root_minLen: "list_all (\<lambda>(r, a). 1 \<le> minLen r) root"
  by (simp add: root_def commentRegex_def stringRegex_def parenthesesRegex_def
        transformRegex_def assignRegex_def operatorRegex_def keywordsRegex_def keywordNames_def
        annotationRegex_def annotationNames_def reactionRegex_def identifierRegex_def
        numberRegex_def Plus_def Opt_def)

subsection \<open>The tokenizer returns, and its tokens tile the line\<close>

lemma tiled_offset_ge: "tiled p ts \<Longrightarrow> t \<in> set ts \<Longrightarrow> p \<le> offset t"
proof (induction ts arbitrary: p)
  case Nil
  then show ?case by simp
next
  case (Cons u ts)
  then show ?case by (cases "t = u") (auto dest: Cons.IH)
qed

lemma tokenizeFrom_total:
  assumes rules: "list_all (\<lambda>(r, a). 1 \<le> minLen r) rules"
  shows "\<exists>ts. tokenizeFrom dflt rules pos s = Inr ts
           \<and> concat (map text' ts) = s
           \<and> tiled pos ts
           \<and> (\<forall>t\<in>set ts. (text' t, type'' t) = stepAt dflt rules (drop (offset t - pos) s))"
proof (induction s arbitrary: pos rule: length_induct)
  case (1 s)
  show ?case
  proof (cases s)
    case Nil
    then show ?thesis by simp
  next
    case (Cons c cs)
    show ?thesis
    proof (cases "firstMatch rules s")
      case None
      have "length cs < length s" using Cons by simp
      with 1 obtain ts where ts: "tokenizeFrom dflt rules (pos + 1) cs = Inr ts"
        "concat (map text' ts) = cs" "tiled (pos + 1) ts"
        "\<forall>t\<in>set ts. (text' t, type'' t) = stepAt dflt rules (drop (offset t - (pos + 1)) cs)"
        by blast
      let ?t = "\<lparr>offset = pos, text' = [c], type'' = dflt\<rparr>"
      have r: "tokenizeFrom dflt rules pos s = Inr (?t # ts)"
        using Cons None ts(1) by simp
      have later: "drop (offset t - pos) s = drop (offset t - (pos + 1)) cs" if "t \<in> set ts" for t
      proof -
        have "pos + 1 \<le> offset t" using tiled_offset_ge [OF ts(3) that] .
        then have "offset t - pos = Suc (offset t - (pos + 1))" by simp
        then show ?thesis using Cons by simp
      qed
      have first: "(text' ?t, type'' ?t) = stepAt dflt rules (drop (offset ?t - pos) s)"
        using None Cons by (simp add: stepAt_def)
      have "\<forall>t\<in>set (?t # ts). (text' t, type'' t) = stepAt dflt rules (drop (offset t - pos) s)"
        using ts(4) later first by auto
      then show ?thesis using r ts(2,3) Cons by auto
    next
      case (Some ma)
      obtain m act where ma: "ma = (m, act)" by (cases ma)
      have m: "m \<noteq> []" "length m \<le> length s" "m = take (length m) s"
        using firstMatch_nonempty [OF _ rules] Some ma by blast+
      let ?rest = "drop (length m) s"
      have "length ?rest < length s" using m Cons by (cases m) auto
      with 1 obtain ts where ts: "tokenizeFrom dflt rules (pos + length m) ?rest = Inr ts"
        "concat (map text' ts) = ?rest" "tiled (pos + length m) ts"
        "\<forall>t\<in>set ts. (text' t, type'' t)
             = stepAt dflt rules (drop (offset t - (pos + length m)) ?rest)"
        by blast
      let ?t = "\<lparr>offset = pos, text' = m, type'' = applyAction act m\<rparr>"
      have r: "tokenizeFrom dflt rules pos s = Inr (?t # ts)"
        using Cons Some ma m(1) ts(1) by simp
      have cat: "concat (map text' (?t # ts)) = s"
        using ts(2) m(3) by (simp, metis append_take_drop_id)
      have later: "drop (offset t - pos) s = drop (offset t - (pos + length m)) ?rest"
        if "t \<in> set ts" for t
      proof -
        have "pos + length m \<le> offset t" using tiled_offset_ge [OF ts(3) that] .
        then have "offset t - pos = (offset t - (pos + length m)) + length m" by simp
        then show ?thesis by (simp add: add.commute)
      qed
      have first: "(text' ?t, type'' ?t) = stepAt dflt rules (drop (offset ?t - pos) s)"
        using Some ma by (simp add: stepAt_def)
      have "\<forall>t\<in>set (?t # ts). (text' t, type'' t) = stepAt dflt rules (drop (offset t - pos) s)"
        using ts(4) later first by auto
      then show ?thesis using r cat ts(3) m(1) by auto
    qed
  qed
qed

lemma tiled_text_nonempty: "tiled p ts \<Longrightarrow> t \<in> set ts \<Longrightarrow> text' t \<noteq> []"
proof (induction ts arbitrary: p)
  case Nil
  then show ?case by simp
next
  case (Cons u ts)
  then show ?case by (cases "t = u") (auto dest: Cons.IH)
qed

lemma tokenizeLine_antimony:
  "length inputLine < maxTokenizationLineLength \<Longrightarrow>
   tokenizeLine antimonyLanguage inputLine = tokenizeFrom ''source'' root 0 inputLine"
  by (simp add: tokenizeLine_def startRules_def antimonyLanguage_def lexerDefaultToken_def)

lemma tokenizeLine_long:
  "maxTokenizationLineLength \<le> length inputLine \<Longrightarrow>
   tokenizeLine lang inputLine = Inr (nullTokenize inputLine)"
  by (simp add: tokenizeLine_def)

lemma tokenizeLine_steps:
  assumes "length inputLine < maxTokenizationLineLength"
  shows "\<exists>ts. tokenizeLine antimonyLanguage inputLine = Inr ts
           \<and> concat (map text' ts) = inputLine
           \<and> tiled 0 ts
           \<and> (\<forall>t\<in>set ts. (text' t, type'' t) = stepAt ''source'' root (drop (offset t) inputLine))"
  using tokenizeFrom_total [OF root_minLen, of "''source''" 0 inputLine]
  by (simp add: tokenizeLine_antimony [OF assms])

text \<open>
  Claim C3, as the code has it.  For every line the tokenizer returns a token list and
  never throws; the texts of the steps, in order, are the line, each step starting at
  its offset where the previous one ended.  On a line shorter than the tokenization
  limit, each character at which no rule matches is consumed on its own, at its offset,
  with the default class \<open>source\<close>; a line that reaches the limit is one token of
  the empty class.  Every line of a text is tokenized without a throw.
\<close>

theorem tokenization_total:
  "(\<exists>ts. tokenizeLine antimonyLanguage inputLine = Inr ts
      \<and> concat (map text' ts) = inputLine
      \<and> tiled 0 ts
      \<and> (length inputLine < maxTokenizationLineLength \<longrightarrow>
           (\<forall>t\<in>set ts. firstMatch root (drop (offset t) inputLine) = None \<longrightarrow>
              text' t = [inputLine ! offset t] \<and> type'' t = ''source''))
      \<and> (maxTokenizationLineLength \<le> length inputLine \<longrightarrow>
           ts = [\<lparr>offset = 0, text' = inputLine, type'' = []\<rparr>]))
   \<and> (\<forall>r\<in>set (tokenize antimonyLanguage s). \<exists>ts. r = Inr ts)"
proof -
  have short: "\<exists>ts. tokenizeLine antimonyLanguage l = Inr ts
      \<and> concat (map text' ts) = l
      \<and> tiled 0 ts
      \<and> (\<forall>t\<in>set ts. firstMatch root (drop (offset t) l) = None \<longrightarrow>
             text' t = [l ! offset t] \<and> type'' t = ''source'')"
    if l: "length l < maxTokenizationLineLength" for l
  proof -
    obtain ts where ts: "tokenizeLine antimonyLanguage l = Inr ts"
      "concat (map text' ts) = l" "tiled 0 ts"
      "\<forall>t\<in>set ts. (text' t, type'' t) = stepAt ''source'' root (drop (offset t) l)"
      using tokenizeLine_steps [OF l] by blast
    have "text' t = [l ! offset t] \<and> type'' t = ''source''"
      if t: "t \<in> set ts" and n: "firstMatch root (drop (offset t) l) = None" for t
    proof -
      have "(text' t, type'' t) = (take 1 (drop (offset t) l), ''source'')"
        using ts(4) t n by (simp add: stepAt_def)
      then have a: "text' t = take 1 (drop (offset t) l)" and b: "type'' t = ''source''"
        by simp_all
      have "text' t \<noteq> []" using tiled_text_nonempty [OF ts(3) t] .
      with a have "offset t < length l" by (cases "offset t < length l") simp_all
      then have "take 1 (drop (offset t) l) = [l ! offset t]"
        by (simp add: take_Suc_conv_app_nth [of 0, simplified] hd_drop_conv_nth take_Suc)
      with a b show ?thesis by simp
    qed
    then show ?thesis using ts(1,2,3) by auto
  qed
  have long: "tokenizeLine antimonyLanguage l = Inr [\<lparr>offset = 0, text' = l, type'' = []\<rparr>]
      \<and> tiled 0 [\<lparr>offset = 0, text' = l, type'' = []\<rparr>]"
    if l: "maxTokenizationLineLength \<le> length l" for l
  proof -
    have "l \<noteq> []" using l by (auto simp: maxTokenizationLineLength_def)
    then show ?thesis using tokenizeLine_long [OF l] by (simp add: nullTokenize_def)
  qed
  have each: "\<exists>ts. tokenizeLine antimonyLanguage l = Inr ts
      \<and> concat (map text' ts) = l
      \<and> tiled 0 ts
      \<and> (length l < maxTokenizationLineLength \<longrightarrow>
           (\<forall>t\<in>set ts. firstMatch root (drop (offset t) l) = None \<longrightarrow>
              text' t = [l ! offset t] \<and> type'' t = ''source''))
      \<and> (maxTokenizationLineLength \<le> length l \<longrightarrow>
           ts = [\<lparr>offset = 0, text' = l, type'' = []\<rparr>])" for l
  proof (cases "length l < maxTokenizationLineLength")
    case True
    with short [OF True] show ?thesis by auto
  next
    case False
    then have "maxTokenizationLineLength \<le> length l" by simp
    from long [OF this] False show ?thesis by simp
  qed
  have "\<exists>ts. r = Inr ts" if "r \<in> set (tokenize antimonyLanguage s)" for r
    using that each by (auto simp: tokenize_def)
  with each [of inputLine] show ?thesis by blast
qed

theorem tokenization_total_witness:
  "length ''k#'' < maxTokenizationLineLength
   \<and> firstMatch root (drop 1 ''k#'') = None
   \<and> (\<exists>ts. tokenizeLine antimonyLanguage ''k#'' = Inr ts
         \<and> ts ! 1 = \<lparr>offset = 1, text' = ''#'', type'' = ''source''\<rparr>)
   \<and> maxTokenizationLineLength \<le> length (replicate 20000 CHR ''#'')
   \<and> tokenizeLine antimonyLanguage (replicate 20000 CHR ''#'')
       = Inr [\<lparr>offset = 0, text' = replicate 20000 CHR ''#'', type'' = []\<rparr>]"
proof -
  have s: "length ''k#'' < maxTokenizationLineLength"
    by (simp add: maxTokenizationLineLength_def)
  have e: "tokenizeLine antimonyLanguage ''k#'' =
      Inr [\<lparr>offset = 0, text' = ''k'', type'' = ''other''\<rparr>,
           \<lparr>offset = 1, text' = ''#'', type'' = ''source''\<rparr>]"
    by code_simp
  have n: "firstMatch root (drop 1 ''k#'') = None"
    by code_simp
  obtain ts where ts: "tokenizeLine antimonyLanguage ''k#'' = Inr ts"
    and u: "length ''k#'' < maxTokenizationLineLength \<longrightarrow>
          (\<forall>t\<in>set ts. firstMatch root (drop (offset t) ''k#'') = None \<longrightarrow>
             text' t = [''k#'' ! offset t] \<and> type'' t = ''source'')"
    using tokenization_total [of "''k#''"] by blast
  from ts e have l: "ts = [\<lparr>offset = 0, text' = ''k'', type'' = ''other''\<rparr>,
           \<lparr>offset = 1, text' = ''#'', type'' = ''source''\<rparr>]" by simp
  have "ts ! 1 \<in> set ts" using l by simp
  moreover have "offset (ts ! 1) = 1" using l by simp
  ultimately have "text' (ts ! 1) = [''k#'' ! 1] \<and> type'' (ts ! 1) = ''source''"
    using u s n by (metis)
  then have "ts ! 1 = \<lparr>offset = 1, text' = ''#'', type'' = ''source''\<rparr>"
    using l by simp
  with ts have a: "\<exists>ts. tokenizeLine antimonyLanguage ''k#'' = Inr ts
         \<and> ts ! 1 = \<lparr>offset = 1, text' = ''#'', type'' = ''source''\<rparr>" by blast
  have g: "maxTokenizationLineLength \<le> length (replicate 20000 CHR ''#'')"
    by (simp add: maxTokenizationLineLength_def)
  obtain us where us: "tokenizeLine antimonyLanguage (replicate 20000 CHR ''#'') = Inr us"
    and v: "maxTokenizationLineLength \<le> length (replicate 20000 CHR ''#'') \<longrightarrow>
          us = [\<lparr>offset = 0, text' = replicate 20000 CHR ''#'', type'' = []\<rparr>]"
    using tokenization_total [of "replicate 20000 CHR ''#''"] by blast
  from us v g have b: "tokenizeLine antimonyLanguage (replicate 20000 CHR ''#'')
       = Inr [\<lparr>offset = 0, text' = replicate 20000 CHR ''#'', type'' = []\<rparr>]" by simp
  from s n a g b show ?thesis by blast
qed

text \<open>
  The claim as stated speaks of an error token that keeps the position of each
  unrecognized character.  The character \<open>#\<close>, which no rule matches, gets the class
  \<open>source\<close>, and so does a blank, which no rule of the state matches either: the
  class does not tell an unrecognized character from white space.  The tokens that the
  collector records for \<open>A #\<close> are one of class \<open>other\<close> at offset 0 and one of class
  \<open>source\<close> at offset 1, for the blank and the \<open>#\<close> together: no token starts at
  offset 2, where the unrecognized character is.
\<close>

theorem tokenization_error_token_counterexample:
  "firstMatch root ''#'' = None
   \<and> tokenizeLine antimonyLanguage ''#'' = Inr [\<lparr>offset = 0, text' = ''#'', type'' = ''source''\<rparr>]
   \<and> tokenizeLine antimonyLanguage '' '' = Inr [\<lparr>offset = 0, text' = '' '', type'' = ''source''\<rparr>]
   \<and> tokenizeLine antimonyLanguage ''A #'' =
       Inr [\<lparr>offset = 0, text' = ''A'', type'' = ''other''\<rparr>,
            \<lparr>offset = 1, text' = '' '', type'' = ''source''\<rparr>,
            \<lparr>offset = 2, text' = ''#'', type'' = ''source''\<rparr>]
   \<and> lineTokens antimonyLanguage ''A #'' = Inr [(0, ''other''), (1, ''source'')]
   \<and> lineTokens antimonyLanguage ''A  '' = Inr [(0, ''other''), (1, ''source'')]"
proof -
  have a: "firstMatch root ''#'' = None" by code_simp
  have b: "tokenizeLine antimonyLanguage ''#'' =
      Inr [\<lparr>offset = 0, text' = ''#'', type'' = ''source''\<rparr>]" by code_simp
  have c: "tokenizeLine antimonyLanguage '' '' =
      Inr [\<lparr>offset = 0, text' = '' '', type'' = ''source''\<rparr>]" by code_simp
  have d: "tokenizeLine antimonyLanguage ''A #'' =
       Inr [\<lparr>offset = 0, text' = ''A'', type'' = ''other''\<rparr>,
            \<lparr>offset = 1, text' = '' '', type'' = ''source''\<rparr>,
            \<lparr>offset = 2, text' = ''#'', type'' = ''source''\<rparr>]" by code_simp
  have e: "lineTokens antimonyLanguage ''A #'' = Inr [(0, ''other''), (1, ''source'')]"
    by (simp add: lineTokens_def d)
  have f: "lineTokens antimonyLanguage ''A  '' = Inr [(0, ''other''), (1, ''source'')]"
    by code_simp
  from a b c d e f show ?thesis by blast
qed


subsection \<open>Matching literal texts and character classes\<close>

lemma matches_Str:
  "k \<noteq> [] \<Longrightarrow>
   matches (Str k) (p, s) =
     (if startsWith k s then [(Some (last k), drop (length k) s)] else [])"
proof (induction k arbitrary: p s rule: Str.induct)
  case 1
  then show ?case by simp
next
  case (2 c)
  then show ?case by (cases s) (auto simp: consume_def startsWith_def)
next
  case (3 c d cs)
  show ?case
  proof (cases s)
    case Nil
    then show ?thesis by (simp add: consume_def startsWith_def)
  next
    case (Cons e t)
    then show ?thesis
      using "3.IH" [of "Some e" t] by (auto simp: consume_def startsWith_def)
  qed
qed

lemma matches_Words:
  "list_all (\<lambda>k. k \<noteq> []) ks \<Longrightarrow>
   matches (Words ks) (p, s) =
     concat (map (\<lambda>k. if startsWith k s then [(Some (last k), drop (length k) s)] else []) ks)"
proof (induction ks rule: Words.induct)
  case 1
  then show ?case by (simp add: consume_def split: list.splits)
next
  case (2 k)
  then show ?case by (simp add: matches_Str)
next
  case (3 k v va)
  then show ?case by (simp add: matches_Str)
qed

lemma Words_member:
  assumes "list_all (\<lambda>k. k \<noteq> []) ks" and "y \<in> set (matches (Words ks) (p, s))"
  shows "\<exists>k\<in>set ks. startsWith k s \<and> snd y = drop (length k) s"
  using assms(2) by (auto simp: matches_Words [OF assms(1)] split: if_splits)

lemma matches_Star_OneOf:
  "matches (Star (OneOf cs)) (p, s) =
     (case s of
        [] \<Rightarrow> [(p, [])]
      | c # t \<Rightarrow> if c \<in> set cs then matches (Star (OneOf cs)) (Some c, t) @ [(p, s)] else [(p, s)])"
  by (subst matches.simps(9)) (simp add: consume_def split: list.splits)

lemma Star_OneOf_head:
  "set u \<subseteq> set cs \<Longrightarrow>
   \<exists>ys. matches (Star (OneOf cs)) (p, u @ v) = matches (Star (OneOf cs)) (lastc p u, v) @ ys"
proof (induction u arbitrary: p)
  case Nil
  then show ?case by (simp add: lastc_def)
next
  case (Cons c u)
  then obtain ys where "matches (Star (OneOf cs)) (Some c, u @ v)
      = matches (Star (OneOf cs)) (lastc (Some c) u, v) @ ys"
    by (metis set_subset_Cons subset_trans)
  moreover have "lastc (Some c) u = lastc p (c # u)" by (simp add: lastc_def)
  ultimately show ?case
    using Cons.prems by (subst matches_Star_OneOf) simp
qed

lemma Star_OneOf_stop:
  "v = [] \<or> hd v \<notin> set cs \<Longrightarrow> matches (Star (OneOf cs)) (p, v) = [(p, v)]"
  by (subst matches_Star_OneOf) (auto split: list.splits)

lemma Star_OneOf_first:
  "set u \<subseteq> set cs \<Longrightarrow> v = [] \<or> hd v \<notin> set cs \<Longrightarrow>
   \<exists>ys. matches (Star (OneOf cs)) (p, u @ v) = (lastc p u, v) # ys"
  using Star_OneOf_head [of u cs p v] Star_OneOf_stop [of v cs "lastc p u"] by auto

lemma Star_OneOf_member:
  "y \<in> set (matches (Star (OneOf cs)) (p, u @ v)) \<Longrightarrow> set u \<subseteq> set cs \<Longrightarrow>
   v = [] \<or> hd v \<notin> set cs \<Longrightarrow> \<exists>k\<le>length u. snd y = drop k u @ v"
proof (induction u arbitrary: p)
  case Nil
  then show ?case using Star_OneOf_stop [of v cs p] by simp
next
  case (Cons c u)
  from Cons.prems(2) have c: "c \<in> set cs" and u: "set u \<subseteq> set cs" by simp_all
  have "matches (Star (OneOf cs)) (p, (c # u) @ v)
      = matches (Star (OneOf cs)) (Some c, u @ v) @ [(p, (c # u) @ v)]"
    using c by (subst matches_Star_OneOf) simp
  with Cons.prems(1) have "y \<in> set (matches (Star (OneOf cs)) (Some c, u @ v)) \<or> y = (p, (c # u) @ v)"
    by auto
  then show ?case
  proof
    assume "y \<in> set (matches (Star (OneOf cs)) (Some c, u @ v))"
    from Cons.IH [OF this u Cons.prems(3)] obtain k where "k \<le> length u" "snd y = drop k u @ v"
      by blast
    then have "Suc k \<le> length (c # u) \<and> snd y = drop (Suc k) (c # u) @ v" by simp
    then show ?thesis by blast
  next
    assume "y = (p, (c # u) @ v)"
    then have "0 \<le> length (c # u) \<and> snd y = drop 0 (c # u) @ v" by simp
    then show ?thesis by blast
  qed
qed

lemma regexMatch_head:
  assumes "matches r (None, m @ t) = (p, t) # ys"
  shows "regexMatch r (m @ t) = Some m"
  using assms by (simp add: regexMatch_def)

lemma concat_find:
  "concat (map (\<lambda>k. if P k then [f k] else []) ks) =
     (case find P ks of None \<Rightarrow> []
      | Some k \<Rightarrow> f k # concat (map (\<lambda>k. if P k then [f k] else []) (tl (dropWhile (\<lambda>k. \<not> P k) ks))))"
  by (induction ks) (auto split: option.splits)

lemma startsWith_take:
  assumes "startsWith k s"
  shows "take (length s - length (drop (length k) s)) s = k"
proof -
  from assms have t: "take (length k) s = k" by (simp add: startsWith_def)
  then have "length k \<le> length s" by (metis length_take min.cobounded2 min.commute)
  then have "length s - length (drop (length k) s) = length k" by simp
  with t show ?thesis by simp
qed

lemma regexMatch_Words:
  assumes "list_all (\<lambda>k. k \<noteq> []) ks"
  shows "regexMatch (Words ks) s = find (\<lambda>k. startsWith k s) ks"
proof (cases "find (\<lambda>k. startsWith k s) ks")
  case None
  then show ?thesis
    by (simp add: regexMatch_def matches_Words [OF assms] concat_find [where f = "\<lambda>k. (Some (last k), drop (length k) s)"])
next
  case (Some k)
  then have "startsWith k s" by (auto simp: find_Some_iff)
  then have t: "take (length k) s = k" by (simp add: startsWith_def)
  then have "length k \<le> length s" by (metis length_take min.cobounded2 min.commute)
  then have "length s - (length s - length k) = length k" by simp
  with Some t show ?thesis
    by (simp add: regexMatch_def matches_Words [OF assms] concat_find [where f = "\<lambda>k. (Some (last k), drop (length k) s)"])
qed

subsection \<open>The first character decides most rules\<close>

lemma matches_first:
  "y \<in> set (matches r x) \<Longrightarrow> snd x = c # s \<Longrightarrow> canStart r c \<or> (y = x \<and> nullable r)"
proof (induction r x arbitrary: y rule: matches.induct)
  case (7 a b x)
  then obtain z where z: "z \<in> set (matches a x)" and y: "y \<in> set (matches b z)"
    by auto
  from "7.IH"(1) [OF z "7.prems"(2)] show ?case
  proof
    assume "canStart a c"
    then show ?thesis by simp
  next
    assume zx: "z = x \<and> nullable a"
    then have "snd z = c # s" using "7.prems"(2) by simp
    from "7.IH"(2) [OF z y this] zx show ?thesis by auto
  qed
next
  case (8 a b x)
  from "8.prems"(1) have "y \<in> set (matches a x) \<or> y \<in> set (matches b x)" by simp
  then show ?case
  proof
    assume "y \<in> set (matches a x)"
    from "8.IH"(1) [OF this "8.prems"(2)] show ?thesis by auto
  next
    assume "y \<in> set (matches b x)"
    from "8.IH"(2) [OF this "8.prems"(2)] show ?thesis by auto
  qed
next
  case (9 a x)
  from "9.prems"(1) have "y = x \<or> (\<exists>z\<in>set (matches a x).
      length (snd z) < length (snd x) \<and> y \<in> set (matches (Star a) z))"
    by (subst (asm) matches.simps(9)) (auto split: if_splits)
  then show ?case
  proof
    assume "y = x"
    then show ?thesis by simp
  next
    assume "\<exists>z\<in>set (matches a x).
      length (snd z) < length (snd x) \<and> y \<in> set (matches (Star a) z)"
    then obtain z where z: "z \<in> set (matches a x)" and l: "length (snd z) < length (snd x)"
      by blast
    from "9.IH"(1) [OF z "9.prems"(2)] l show ?thesis by auto
  qed
next
  case (6 x)
  then show ?case by (simp split: if_splits)
qed (auto simp: consume_def split: list.splits if_splits)

lemma blocked_by_first:
  assumes "\<not> canStart r c" and "1 \<le> minLen r"
  shows "matches r (p, c # s) = []"
proof (rule ccontr)
  assume "matches r (p, c # s) \<noteq> []"
  then obtain y where y: "y \<in> set (matches r (p, c # s))"
    by (cases "matches r (p, c # s)") auto
  from matches_first [OF y, of c s] assms(1) have "y = (p, c # s)" by simp
  with matches_minLen [OF y] assms(2) show False by simp
qed

lemma regexMatch_blocked:
  "\<not> canStart r c \<Longrightarrow> 1 \<le> minLen r \<Longrightarrow> regexMatch r (c # s) = None"
  by (simp add: regexMatch_def blocked_by_first)

lemma matches_WordB_Seq:
  "matches (Seq WordB r) x = (if wordBefore x \<noteq> wordAfter x then matches r x else [])"
  by simp

subsection \<open>The rules on words\<close>

lemma wordAfter_simps [simp]:
  "wordAfter (p, []) = False"
  "wordAfter (p, c # s) = (c \<in> set wordChars)"
  by (simp_all add: wordAfter_def)

lemma wordBefore_simps [simp]:
  "wordBefore (None, s) = False"
  "wordBefore (Some c, s) = (c \<in> set wordChars)"
  by (simp_all add: wordBefore_def)

lemma startsWith_word:
  assumes k: "set k \<subseteq> set wordChars" and t: "\<not> wordAfter (q, t)"
    and s: "startsWith k (w @ t)"
  shows "startsWith k w"
proof (cases "length k \<le> length w")
  case True
  with s show ?thesis by (simp add: startsWith_def)
next
  case False
  with s have kk: "k = w @ take (length k - length w) t" by (simp add: startsWith_def)
  have "take (length k - length w) t \<noteq> []"
  proof
    assume "take (length k - length w) t = []"
    with kk have "k = w" by simp
    with False show False by simp
  qed
  then obtain c t' where c: "t = c # t'" by (cases t) auto
  with False have "take (length k - length w) t = c # take (length k - length w - 1) t'"
    by (cases "length k - length w") auto
  with kk have "c \<in> set k" by (metis in_set_conv_decomp)
  with k c t show ?thesis by auto
qed

lemma startsWith_append:
  assumes "startsWith k w"
  shows "startsWith k (w @ t)"
proof -
  from assms have "take (length k) w = k" by (simp add: startsWith_def)
  then have "length k \<le> length w" by (metis length_take min.cobounded2 min.commute)
  with assms show ?thesis by (simp add: startsWith_def)
qed

lemma startsWith_word_iff:
  assumes "set k \<subseteq> set wordChars" and "\<not> wordAfter (q, t)"
  shows "startsWith k (w @ t) = startsWith k w"
  using startsWith_word [OF assms] startsWith_append by blast

lemma word_continues:
  assumes w: "set w \<subseteq> set wordChars" and k: "set k \<subseteq> set wordChars"
    and t: "\<not> wordAfter (q, t)" and s: "startsWith k (w @ t)" and n: "k \<noteq> w"
  shows "wordAfter (p, drop (length k) (w @ t))"
proof -
  have sw: "startsWith k w" using startsWith_word [OF k t s] .
  then have kw: "take (length k) w = k" by (simp add: startsWith_def)
  have "length k < length w"
  proof (rule ccontr)
    assume "\<not> length k < length w"
    with kw have "k = w" by simp
    with n show False by simp
  qed
  then obtain c r where r: "drop (length k) w = c # r"
    by (cases "drop (length k) w") auto
  then have "c \<in> set w" by (metis in_set_dropD list.set_intros(1))
  with w r \<open>length k < length w\<close> show ?thesis by auto
qed

lemma words_then_boundary_none:
  assumes ks: "list_all (\<lambda>k. k \<noteq> [] \<and> set k \<subseteq> set wordChars) ks"
    and n: "w \<notin> set ks" and w: "set w \<subseteq> set wordChars" and t: "\<not> wordAfter (q, t)"
  shows "matches (Seq (Words ks) WordB) (p, w @ t) = []"
proof -
  have ne: "list_all (\<lambda>k. k \<noteq> []) ks" using ks by (simp add: list_all_iff)
  have "matches WordB (Some (last k), drop (length k) (w @ t)) = []"
    if k: "k \<in> set ks" and s: "startsWith k (w @ t)" for k
  proof -
    from ks k have k1: "k \<noteq> []" and k2: "set k \<subseteq> set wordChars"
      by (auto simp: list_all_iff)
    from k n have "k \<noteq> w" by auto
    from word_continues [OF w k2 t s this]
    have "wordAfter (Some (last k), drop (length k) (w @ t))" .
    moreover have "wordBefore (Some (last k), drop (length k) (w @ t))"
      using k1 k2 by auto
    ultimately show ?thesis by simp
  qed
  then show ?thesis
    by (simp add: matches_Words [OF ne] concat_eq_Nil_conv del: matches.simps(6))
qed

lemma concat_map_concat_map:
  "concat (map f (concat (map g ks))) = concat (map (\<lambda>k. concat (map f (g k))) ks)"
  by (induction ks) auto

lemma words_then_boundary:
  assumes ks: "list_all (\<lambda>k. k \<noteq> [] \<and> set k \<subseteq> set wordChars) ks"
    and n: "w \<noteq> []" and w: "set w \<subseteq> set wordChars" and t: "\<not> wordAfter (q, t)"
  shows "matches (Seq (Words ks) WordB) (p, w @ t)
           = concat (map (\<lambda>k. if k = w then [(Some (last w), t)] else []) ks)"
proof -
  have ne: "list_all (\<lambda>k. k \<noteq> []) ks" using ks by (simp add: list_all_iff)
  have each: "concat (map (matches WordB)
                 (if startsWith k (w @ t) then [(Some (last k), drop (length k) (w @ t))] else []))
              = (if k = w then [(Some (last w), t)] else [])" if k: "k \<in> set ks" for k
  proof (cases "k = w")
    case True
    have "last w \<in> set wordChars" using n w by auto
    moreover have "\<not> wordAfter (Some (last w), t)" using t by (simp add: wordAfter_def)
    ultimately show ?thesis using True by (simp add: startsWith_def)
  next
    case False
    from ks k have k1: "k \<noteq> []" and k2: "set k \<subseteq> set wordChars"
      by (auto simp: list_all_iff)
    show ?thesis
    proof (cases "startsWith k (w @ t)")
      case True
      from word_continues [OF w k2 t True False]
      have "wordAfter (Some (last k), drop (length k) (w @ t))" .
      moreover have "wordBefore (Some (last k), drop (length k) (w @ t))"
        using k1 k2 by auto
      ultimately show ?thesis using True False by simp
    next
      case f: False
      with False show ?thesis by simp
    qed
  qed
  have "matches (Seq (Words ks) WordB) (p, w @ t)
      = concat (map (\<lambda>k. concat (map (matches WordB)
                 (if startsWith k (w @ t) then [(Some (last k), drop (length k) (w @ t))] else []))) ks)"
    by (simp only: matches.simps(7) matches_Words [OF ne] concat_map_concat_map)
  also have "\<dots> = concat (map (\<lambda>k. if k = w then [(Some (last w), t)] else []) ks)"
  proof -
    have "map (\<lambda>k. concat (map (matches WordB)
                 (if startsWith k (w @ t) then [(Some (last k), drop (length k) (w @ t))] else []))) ks
        = map (\<lambda>k. if k = w then [(Some (last w), t)] else []) ks"
      by (rule map_cong [OF refl]) (rule each)
    then show ?thesis by (simp only:)
  qed
  finally show ?thesis .
qed

lemma keywordNames_words:
  "list_all (\<lambda>k. k \<noteq> [] \<and> set k \<subseteq> set wordChars) keywordNames"
  by (simp add: keywordNames_def wordChars_def lowerChars_def upperChars_def digitChars_def)

lemma annotationNames_words:
  "list_all (\<lambda>k. k \<noteq> [] \<and> set k \<subseteq> set wordChars) annotationNames"
  by (simp add: annotationNames_def wordChars_def lowerChars_def upperChars_def digitChars_def)

lemma word_cursor:
  assumes "w \<noteq> []" and "set w \<subseteq> set wordChars"
  shows "wordAfter (None, w @ t)" and "\<not> wordBefore (None, w @ t)"
  using assms by (cases w; simp)+

lemma keywordsRegex_none:
  assumes "w \<notin> set keywordNames" and "set w \<subseteq> set wordChars" and "\<not> wordAfter (q, t)"
  shows "regexMatch keywordsRegex (w @ t) = None"
proof -
  have "matches (Seq (Words keywordNames) WordB) (None, w @ t) = []"
    using words_then_boundary_none [OF keywordNames_words assms] .
  then show ?thesis
    by (simp add: regexMatch_def keywordsRegex_def del: matches.simps)
       (simp add: matches_WordB_Seq del: matches.simps)
qed

lemma keywordsRegex_whole:
  assumes k: "w \<in> set keywordNames" and t: "\<not> wordAfter (q, t)"
  shows "regexMatch keywordsRegex (w @ t) = Some w"
proof -
  from keywordNames_words k have n: "w \<noteq> []" and w: "set w \<subseteq> set wordChars"
    by (auto simp: list_all_iff)
  have "find (\<lambda>k. k = w) keywordNames = Some w"
    using k by (auto simp: keywordNames_def)
  then obtain ys where
    "matches (Seq (Words keywordNames) WordB) (None, w @ t) = (Some (last w), t) # ys"
    by (simp add: words_then_boundary [OF keywordNames_words n w t]
          concat_find [where f = "\<lambda>k. (Some (last w), t)"] del: matches.simps)
  then have "matches keywordsRegex (None, w @ t) = (Some (last w), t) # ys"
    using word_cursor [OF n w, of t]
    by (simp add: keywordsRegex_def matches_WordB_Seq del: matches.simps)
  then show ?thesis by (rule regexMatch_head)
qed

lemma keywordsRegex_only:
  assumes "regexMatch keywordsRegex s = Some m"
  shows "m \<in> set keywordNames"
proof -
  have ne: "list_all (\<lambda>k. k \<noteq> []) keywordNames"
    using keywordNames_words by (simp add: list_all_iff)
  from assms obtain y ys where y: "matches keywordsRegex (None, s) = y # ys"
    and m: "m = take (length s - length (snd y)) s"
    by (auto simp: regexMatch_def split: list.splits)
  have "y \<in> set (matches (Seq WordB (Seq (Words keywordNames) WordB)) (None, s))"
    using y by (simp add: keywordsRegex_def del: matches.simps)
  then have "y \<in> set (concat (map (matches WordB) (matches (Words keywordNames) (None, s))))"
    by (simp only: matches_WordB_Seq matches.simps(7) split: if_splits) simp
  then obtain z where z: "z \<in> set (matches (Words keywordNames) (None, s))"
    and "y \<in> set (matches WordB z)" by auto
  then have "y = z" by (simp split: if_splits)
  with Words_member [OF ne] z obtain k where k: "k \<in> set keywordNames" "startsWith k s"
    "snd y = drop (length k) s" by (cases z) fastforce
  from startsWith_take [OF k(2)] k(3) m have "m = k" by simp
  with k(1) show ?thesis by simp
qed

lemma annotationRegex_first:
  assumes "\<not> wordAfter (q, t)"
  shows "regexMatch annotationRegex (w @ t) = find (\<lambda>k. startsWith k w) annotationNames"
proof -
  have ne: "list_all (\<lambda>k. k \<noteq> []) annotationNames"
    using annotationNames_words by (simp add: list_all_iff)
  have "find (\<lambda>k. startsWith k (w @ t)) annotationNames
      = find (\<lambda>k. startsWith k w) annotationNames"
  proof (rule find_cong [OF refl])
    fix k assume "k \<in> set annotationNames"
    with annotationNames_words have "set k \<subseteq> set wordChars" by (auto simp: list_all_iff)
    from startsWith_word_iff [OF this assms] show "startsWith k (w @ t) = startsWith k w" .
  qed
  then show ?thesis by (simp add: annotationRegex_def regexMatch_Words [OF ne])
qed

lemma annotationRegex_only:
  assumes "regexMatch annotationRegex s = Some m"
  shows "m \<in> set annotationNames"
proof -
  have ne: "list_all (\<lambda>k. k \<noteq> []) annotationNames"
    using annotationNames_words by (simp add: list_all_iff)
  from assms have "find (\<lambda>k. startsWith k s) annotationNames = Some m"
    by (simp add: annotationRegex_def regexMatch_Words [OF ne])
  then show ?thesis by (auto simp: find_Some_iff)
qed

lemma annotationPrefixed_find:
  "annotationPrefixed w = (find (\<lambda>k. startsWith k w) annotationNames \<noteq> None)"
  by (auto simp: annotationPrefixed_def list_ex_iff find_None_iff)

lemma early_rules_blocked:
  assumes "c \<in> set wordChars"
  shows "regexMatch commentRegex (c # s) = None"
    and "regexMatch stringRegex (c # s) = None"
    and "regexMatch parenthesesRegex (c # s) = None"
    and "regexMatch transformRegex (c # s) = None"
    and "regexMatch assignRegex (c # s) = None"
    and "regexMatch operatorRegex (c # s) = None"
proof -
  have "list_all (\<lambda>c. \<not> canStart commentRegex c \<and> \<not> canStart stringRegex c
          \<and> \<not> canStart parenthesesRegex c \<and> \<not> canStart transformRegex c
          \<and> \<not> canStart assignRegex c \<and> \<not> canStart operatorRegex c) wordChars"
    by (simp add: commentRegex_def stringRegex_def parenthesesRegex_def transformRegex_def
          assignRegex_def operatorRegex_def wordChars_def lowerChars_def upperChars_def
          digitChars_def)
  with assms have n: "\<not> canStart commentRegex c" "\<not> canStart stringRegex c"
      "\<not> canStart parenthesesRegex c" "\<not> canStart transformRegex c"
      "\<not> canStart assignRegex c" "\<not> canStart operatorRegex c"
    by (auto simp: list_all_iff)
  have m: "1 \<le> minLen commentRegex" "1 \<le> minLen stringRegex" "1 \<le> minLen parenthesesRegex"
      "1 \<le> minLen transformRegex" "1 \<le> minLen assignRegex" "1 \<le> minLen operatorRegex"
    by (simp_all add: commentRegex_def stringRegex_def parenthesesRegex_def transformRegex_def
          assignRegex_def operatorRegex_def)
  show "regexMatch commentRegex (c # s) = None" using n(1) m(1) by (rule regexMatch_blocked)
  show "regexMatch stringRegex (c # s) = None" using n(2) m(2) by (rule regexMatch_blocked)
  show "regexMatch parenthesesRegex (c # s) = None" using n(3) m(3) by (rule regexMatch_blocked)
  show "regexMatch transformRegex (c # s) = None" using n(4) m(4) by (rule regexMatch_blocked)
  show "regexMatch assignRegex (c # s) = None" using n(5) m(5) by (rule regexMatch_blocked)
  show "regexMatch operatorRegex (c # s) = None" using n(6) m(6) by (rule regexMatch_blocked)
qed

lemma colon_not_word: "CHR '':'' \<notin> set wordChars"
  by (simp add: wordChars_def lowerChars_def upperChars_def digitChars_def)

lemma dollar_not_word: "CHR ''$'' \<notin> set wordChars"
  by (simp add: wordChars_def lowerChars_def upperChars_def digitChars_def)

lemma at_not_letter: "CHR ''@'' \<notin> set (lowerChars @ upperChars)"
  by (simp add: lowerChars_def upperChars_def)

lemma reactionRegex_unfold:
  assumes "c \<in> set wordChars"
  shows "matches reactionRegex (None, c # s)
           = concat (map (matches (Chr CHR '':'')) (matches (Star (OneOf wordChars)) (Some c, s)))"
  using assms
  by (simp add: reactionRegex_def wordChars_def [symmetric] Plus_def consume_def
        del: matches.simps(9))

lemma reactionRegex_colon:
  assumes "w \<noteq> []" and "set w \<subseteq> set wordChars"
  shows "regexMatch reactionRegex (w @ CHR '':'' # t) = Some (w @ '':'')"
proof -
  from assms(1) obtain c u where w: "w = c # u" by (cases w) auto
  with assms(2) have c: "c \<in> set wordChars" and u: "set u \<subseteq> set wordChars" by auto
  have v: "CHR '':'' # t = [] \<or> hd (CHR '':'' # t) \<notin> set wordChars" using colon_not_word by simp
  from Star_OneOf_first [OF u v, of "Some c"] obtain ys where
    "matches (Star (OneOf wordChars)) (Some c, u @ CHR '':'' # t)
       = (lastc (Some c) u, CHR '':'' # t) # ys" by blast
  then have "matches reactionRegex (None, c # u @ CHR '':'' # t)
      = (Some CHR '':'', t) # concat (map (matches (Chr CHR '':'')) ys)"
    by (simp add: reactionRegex_unfold [OF c] consume_def)
  then have "matches reactionRegex (None, (w @ '':'') @ t)
      = (Some CHR '':'', t) # concat (map (matches (Chr CHR '':'')) ys)"
    using w by simp
  then have "regexMatch reactionRegex ((w @ '':'') @ t) = Some (w @ '':'')"
    by (rule regexMatch_head)
  then show ?thesis by simp
qed

lemma reactionRegex_no_colon:
  assumes "w \<noteq> []" and "set w \<subseteq> set wordChars"
    and "\<not> wordAfter (q, t)" and "t = [] \<or> hd t \<noteq> CHR '':''"
  shows "regexMatch reactionRegex (w @ t) = None"
proof -
  from assms(1) obtain c u where w: "w = c # u" by (cases w) auto
  with assms(2) have c: "c \<in> set wordChars" and u: "set u \<subseteq> set wordChars" by auto
  have v: "t = [] \<or> hd t \<notin> set wordChars" using assms(3) by (cases t) simp_all
  have "matches (Chr CHR '':'') y = []"
    if y: "y \<in> set (matches (Star (OneOf wordChars)) (Some c, u @ t))" for y
  proof -
    from Star_OneOf_member [OF y u v] obtain k where k: "k \<le> length u" "snd y = drop k u @ t"
      by blast
    have "snd y = [] \<or> hd (snd y) \<noteq> CHR '':''"
    proof (cases "drop k u")
      case Nil
      with k assms(4) show ?thesis by simp
    next
      case (Cons d r)
      then have "d \<in> set u" by (metis in_set_dropD list.set_intros(1))
      with u colon_not_word have "d \<noteq> CHR '':''" by auto
      with Cons k show ?thesis by simp
    qed
    then show ?thesis by (cases y) (auto simp: consume_def split: list.splits)
  qed
  then have "matches reactionRegex (None, c # u @ t) = []"
    by (simp add: reactionRegex_unfold [OF c] concat_eq_Nil_conv del: matches.simps)
  then show ?thesis using w by (simp add: regexMatch_def)
qed

lemma identifierRegex_word:
  assumes "w \<noteq> []" and "set w \<subseteq> set wordChars"
    and "hd w \<in> set (lowerChars @ upperChars)"
  shows "regexMatch identifierRegex (w @ t)
           = Some (w @ takeWhile (\<lambda>c. c \<in> set (wordChars @ ''$'')) t)"
proof -
  let ?P = "\<lambda>c. c \<in> set (wordChars @ ''$'')"
  from assms(1) obtain c u where w: "w = c # u" by (cases w) auto
  with assms have c: "c \<in> set (lowerChars @ upperChars)" and u: "set u \<subseteq> set wordChars"
    by auto
  have ca: "c \<noteq> CHR ''@''" using c at_not_letter by auto
  have u': "set (u @ takeWhile ?P t) \<subseteq> set (wordChars @ ''$'')"
    using u by (auto dest: set_takeWhileD)
  have v: "dropWhile ?P t = [] \<or> hd (dropWhile ?P t) \<notin> set (wordChars @ ''$'')"
    using hd_dropWhile [of ?P t] by blast
  from Star_OneOf_first [OF u' v, of "Some c"] obtain ys where
    "matches (Star (OneOf (wordChars @ ''$''))) (Some c, (u @ takeWhile ?P t) @ dropWhile ?P t)
       = (lastc (Some c) (u @ takeWhile ?P t), dropWhile ?P t) # ys" by blast
  then have s: "matches (Star (OneOf (wordChars @ ''$''))) (Some c, u @ t)
       = (lastc (Some c) (u @ takeWhile ?P t), dropWhile ?P t) # ys" by simp
  have "matches identifierRegex (None, c # u @ t)
       = (lastc (Some c) (u @ takeWhile ?P t), dropWhile ?P t) # ys"
    using ca c s
    by (simp add: identifierRegex_def Opt_def consume_def del: matches.simps(9))
  then have "matches identifierRegex (None, (w @ takeWhile ?P t) @ dropWhile ?P t)
       = (lastc (Some c) (u @ takeWhile ?P t), dropWhile ?P t) # ys"
    using w by simp
  then have "regexMatch identifierRegex ((w @ takeWhile ?P t) @ dropWhile ?P t)
       = Some (w @ takeWhile ?P t)" by (rule regexMatch_head)
  then show ?thesis by simp
qed

lemma identifier_tail:
  assumes "t = [] \<or> hd t \<notin> set wordChars"
  shows "takeWhile (\<lambda>c. c \<in> set (wordChars @ ''$'')) t = []
       \<or> CHR ''$'' \<in> set (takeWhile (\<lambda>c. c \<in> set (wordChars @ ''$'')) t)"
proof (cases t)
  case Nil
  then show ?thesis by simp
next
  case (Cons d r)
  with assms show ?thesis by auto
qed

lemma applyAction_identifierCases:
  "applyAction identifierCases w = (if w \<in> set declaredKinds then w else ''other'')"
proof -
  have "map_of (map (\<lambda>k. (k, k)) ks) w = (if w \<in> set ks then Some w else None)" for ks :: "string list"
    by (induction ks) auto
  then show ?thesis by (simp add: identifierCases_def)
qed

subsection \<open>The step of the tokenizer at a word\<close>

lemma firstMatch_word:
  assumes n: "w \<noteq> []" and w: "set w \<subseteq> set wordChars" and t: "\<not> wordAfter (q, t)"
  shows "firstMatch root (w @ t) =
     (if w \<in> set keywordNames then Some (w, Token ''keywords'')
      else case find (\<lambda>k. startsWith k w) annotationNames of
             Some k \<Rightarrow> Some (k, Token ''annotation'')
           | None \<Rightarrow>
               if t \<noteq> [] \<and> hd t = CHR '':'' then Some (w @ '':'', Token ''react-remov'')
               else if hd w \<in> set (lowerChars @ upperChars)
                 then Some (w @ takeWhile (\<lambda>c. c \<in> set (wordChars @ ''$'')) t, identifierCases)
                 else firstMatch [(numberRegex, Token ''number'')] (w @ t))"
proof -
  from n obtain c u where cu: "w = c # u" by (cases w) auto
  with w have cw: "c \<in> set wordChars" by simp
  have e: "regexMatch commentRegex (w @ t) = None"
      "regexMatch stringRegex (w @ t) = None"
      "regexMatch parenthesesRegex (w @ t) = None"
      "regexMatch transformRegex (w @ t) = None"
      "regexMatch assignRegex (w @ t) = None"
      "regexMatch operatorRegex (w @ t) = None"
    using early_rules_blocked [OF cw, of "u @ t"] by (simp_all add: cu)
  have a: "regexMatch annotationRegex (w @ t) = find (\<lambda>k. startsWith k w) annotationNames"
    using annotationRegex_first [OF t] .
  show ?thesis
  proof (cases "w \<in> set keywordNames")
    case True
    then show ?thesis by (simp add: root_def e keywordsRegex_whole [OF True t])
  next
    case k: False
    have kw: "regexMatch keywordsRegex (w @ t) = None" using keywordsRegex_none [OF k w t] .
    show ?thesis
    proof (cases "find (\<lambda>k. startsWith k w) annotationNames")
      case (Some j)
      then show ?thesis using k by (simp add: root_def e kw a)
    next
      case None
      show ?thesis
      proof (cases "t \<noteq> [] \<and> hd t = CHR '':''")
        case True
        then obtain t' where "t = CHR '':'' # t'" by (cases t) auto
        with reactionRegex_colon [OF n w, of t']
        have rc: "regexMatch reactionRegex (w @ t) = Some (w @ '':'')" by simp
        show ?thesis
          using k None True by (simp add: root_def e kw a rc)
      next
        case False
        then have "t = [] \<or> hd t \<noteq> CHR '':''" by blast
        from reactionRegex_no_colon [OF n w t this]
        have r: "regexMatch reactionRegex (w @ t) = None" .
        show ?thesis
        proof (cases "hd w \<in> set (lowerChars @ upperChars)")
          case True
          from identifierRegex_word [OF n w True, of t] show ?thesis
            using k None False True by (auto simp: root_def e kw a r)
        next
          case l: False
          have "regexMatch identifierRegex (w @ t) = None"
          proof -
            have "\<not> canStart identifierRegex c"
            proof -
              have "CHR ''@'' \<notin> set wordChars"
                by (simp add: wordChars_def lowerChars_def upperChars_def digitChars_def)
              with cw have "c \<noteq> CHR ''@''" by auto
              with l cu show ?thesis by (simp add: identifierRegex_def Opt_def)
            qed
            moreover have "1 \<le> minLen identifierRegex" by (simp add: identifierRegex_def Opt_def)
            ultimately have "regexMatch identifierRegex (c # u @ t) = None"
              by (rule regexMatch_blocked)
            then show ?thesis by (simp add: cu)
          qed
          then show ?thesis using k None False l by (auto simp: root_def e kw a r)
        qed
      qed
    qed
  qed
qed

lemma firstMatch_rule:
  "firstMatch rules s = Some (m, act) \<Longrightarrow>
   \<exists>r. (r, act) \<in> set rules \<and> regexMatch r s = Some m"
  by (induction rules) (auto split: option.splits)

lemma root_classes:
  assumes "firstMatch root s = Some (m, act)"
  shows "(applyAction act m = ''keywords'' \<longrightarrow> m \<in> set keywordNames)
       \<and> (applyAction act m = ''annotation'' \<longrightarrow> m \<in> set annotationNames)
       \<and> (applyAction act m \<in> set declaredKinds \<longrightarrow> m = applyAction act m)"
proof -
  from firstMatch_rule [OF assms] obtain r where r: "(r, act) \<in> set root"
    and m: "regexMatch r s = Some m" by blast
  from r have "act = identifierCases
      \<or> (r = keywordsRegex \<and> act = Token ''keywords'')
      \<or> (r = annotationRegex \<and> act = Token ''annotation'')
      \<or> act \<in> set (map Token [''comment'', ''string'', ''connected-parentheses'', ''transform'',
                     ''assign'', ''operator'', ''react-remov'', ''number''])"
    by (auto simp: root_def)
  then show ?thesis
  proof (elim disjE)
    assume "act = identifierCases"
    then show ?thesis by (simp add: applyAction_identifierCases declaredKinds_def)
  next
    assume "r = keywordsRegex \<and> act = Token ''keywords''"
    with m keywordsRegex_only show ?thesis by (auto simp: declaredKinds_def)
  next
    assume "r = annotationRegex \<and> act = Token ''annotation''"
    with m annotationRegex_only show ?thesis by (auto simp: declaredKinds_def)
  next
    assume "act \<in> set (map Token [''comment'', ''string'', ''connected-parentheses'',
        ''transform'', ''assign'', ''operator'', ''react-remov'', ''number''])"
    then show ?thesis by (auto simp: declaredKinds_def)
  qed
qed

lemma stepAt_classes:
  assumes "(m, c) = stepAt ''source'' root s"
  shows "(c = ''keywords'' \<longrightarrow> m \<in> set keywordNames)
       \<and> (c = ''annotation'' \<longrightarrow> m \<in> set annotationNames)
       \<and> (c \<in> set declaredKinds \<longrightarrow> m = c)"
proof (cases "firstMatch root s")
  case None
  with assms show ?thesis by (simp add: stepAt_def declaredKinds_def)
next
  case (Some ma)
  obtain m' act where "ma = (m', act)" by (cases ma)
  with Some assms root_classes [of s m' act] show ?thesis by (simp add: stepAt_def)
qed

lemma wholeAnnotationNames_list:
  "wholeAnnotationNames =
     [''identity'', ''is'', ''model_source'', ''biological_entity_is'', ''hasPart'',
      ''parthood'', ''part'', ''hypernym'', ''biological_system'', ''hasVersion'',
      ''version'', ''homolog'', ''description'', ''publication'', ''encoder'', ''encodes'',
      ''encodement'', ''occursIn'', ''container'', ''hasProperty'', ''property'',
      ''hasTaxon'', ''taxon'', ''sboTerm'', ''model_entity_is'', ''origin'',
      ''hasInstance'', ''instance'']"
  by code_simp

lemma wholeAnnotationNames_first:
  "list_all (\<lambda>k. find (\<lambda>j. startsWith j k) annotationNames = Some k \<and> k \<notin> set keywordNames)
     wholeAnnotationNames"
  by code_simp

lemma declaredKinds_words:
  "list_all (\<lambda>k. k \<notin> set keywordNames \<and> \<not> annotationPrefixed k
       \<and> hd k \<in> set (lowerChars @ upperChars) \<and> list_all (\<lambda>c. c \<in> set wordChars) k)
     declaredKinds"
  by code_simp

lemma stepAt_word:
  assumes n: "w \<noteq> []" and w: "set w \<subseteq> set wordChars" and t: "t = [] \<or> hd t \<notin> set wordChars"
    and s: "(m, c) = stepAt ''source'' root (w @ t)"
  shows "(w \<in> set keywordNames \<longrightarrow> m = w \<and> c = ''keywords'')
       \<and> (w \<in> set wholeAnnotationNames \<longrightarrow> m = w \<and> c = ''annotation'')
       \<and> (w \<in> set declaredKinds \<and> (t = [] \<or> hd t \<notin> set '':$'') \<longrightarrow> m = w \<and> c = w)
       \<and> (w \<notin> set keywordNames \<and> \<not> annotationPrefixed w \<and> t \<noteq> [] \<and> hd t = CHR '':'' \<longrightarrow>
            m = w @ '':'' \<and> c = ''react-remov'')
       \<and> (w \<notin> set keywordNames \<and> \<not> annotationPrefixed w \<and> w \<notin> set declaredKinds
            \<and> hd w \<in> set (lowerChars @ upperChars) \<and> (t = [] \<or> hd t \<noteq> CHR '':'') \<longrightarrow>
            m = w @ takeWhile (\<lambda>c. c \<in> set (wordChars @ ''$'')) t \<and> c = ''other'')"
proof -
  let ?tail = "takeWhile (\<lambda>c. c \<in> set (wordChars @ ''$'')) t"
  have t': "\<not> wordAfter (None, t)" using t by (cases t) simp_all
  note f = firstMatch_word [OF n w t']
  have a: "m = w \<and> c = ''keywords''" if "w \<in> set keywordNames"
    using that s f by (simp add: stepAt_def)
  have b: "m = w \<and> c = ''annotation''" if "w \<in> set wholeAnnotationNames"
  proof -
    from that wholeAnnotationNames_first
    have "find (\<lambda>j. startsWith j w) annotationNames = Some w" "w \<notin> set keywordNames"
      by (auto simp: list_all_iff)
    with s f show ?thesis by (simp add: stepAt_def)
  qed
  have ident: "m = w @ ?tail \<and> c = (if w @ ?tail \<in> set declaredKinds then w @ ?tail else ''other'')"
    if "w \<notin> set keywordNames" "\<not> annotationPrefixed w" "hd w \<in> set (lowerChars @ upperChars)"
      "t = [] \<or> hd t \<noteq> CHR '':''"
  proof -
    from that(2) have "find (\<lambda>k. startsWith k w) annotationNames = None"
      by (simp add: annotationPrefixed_find)
    with that(1,3,4) f
    have "firstMatch root (w @ t) = Some (w @ ?tail, identifierCases)" by auto
    with s show ?thesis by (simp add: stepAt_def applyAction_identifierCases)
  qed
  have d: "m = w \<and> c = w" if k: "w \<in> set declaredKinds" and e: "t = [] \<or> hd t \<notin> set '':$''"
  proof -
    from k declaredKinds_words have p: "w \<notin> set keywordNames" "\<not> annotationPrefixed w"
        "hd w \<in> set (lowerChars @ upperChars)"
      by (auto simp: list_all_iff)
    have "?tail = []" using e t by (cases t) auto
    moreover have "t = [] \<or> hd t \<noteq> CHR '':''" using e by auto
    ultimately show ?thesis using ident [OF p] k by simp
  qed
  have r: "m = w @ '':'' \<and> c = ''react-remov''"
    if "w \<notin> set keywordNames" "\<not> annotationPrefixed w" "t \<noteq> []" "hd t = CHR '':''"
  proof -
    from that(2) have "find (\<lambda>k. startsWith k w) annotationNames = None"
      by (simp add: annotationPrefixed_find)
    with that(1,3,4) f
    have "firstMatch root (w @ t) = Some (w @ '':'', Token ''react-remov'')" by simp
    with s show ?thesis by (simp add: stepAt_def)
  qed
  have g: "m = w @ ?tail \<and> c = ''other''"
    if p: "w \<notin> set keywordNames" "\<not> annotationPrefixed w" "hd w \<in> set (lowerChars @ upperChars)"
      "t = [] \<or> hd t \<noteq> CHR '':''" and k: "w \<notin> set declaredKinds"
  proof -
    have "w @ ?tail \<notin> set declaredKinds"
    proof
      assume in_kinds: "w @ ?tail \<in> set declaredKinds"
      with declaredKinds_words have "set (w @ ?tail) \<subseteq> set wordChars"
        by (auto simp: list_all_iff)
      with dollar_not_word have "CHR ''$'' \<notin> set ?tail" by auto
      with identifier_tail [OF t] have "?tail = []" by blast
      with in_kinds k show False by simp
    qed
    with ident [OF p] show ?thesis by simp
  qed
  from a b d r g show ?thesis by blast
qed

subsection \<open>The classes of words\<close>

text \<open>
  Claim C7, as the code has it, for a line shorter than the tokenization limit.  A token
  of class \<open>keywords\<close> is one of \<open>at\<close>, \<open>in\<close>, \<open>import\<close>, \<open>has\<close>; a token of class
  \<open>annotation\<close> is one of the listed annotation names; a token whose class is one of
  \<open>const\<close>, \<open>unit\<close>, \<open>var\<close>, \<open>species\<close>, \<open>function\<close>, \<open>model\<close>, \<open>end\<close>,
  \<open>compartment\<close> is that very word.  Conversely, let a token start at a word \<open>w\<close>, a
  run of letters, digits and underscores that no such character follows.  If \<open>w\<close> is one
  of the four keywords, the token is \<open>w\<close> with class \<open>keywords\<close>.  If \<open>w\<close> is an
  annotation name that does not begin with a name listed before it, the token is \<open>w\<close>
  with class \<open>annotation\<close>.  If \<open>w\<close> is one of the eight declared kinds and neither a
  colon nor a dollar sign follows, the token is \<open>w\<close> and its class is \<open>w\<close>.  If
  \<open>w\<close> is no keyword and does not begin with an annotation name, then: when a colon
  follows, the token is \<open>w\<close> with the colon, of class \<open>react-remov\<close>; when no colon
  follows, \<open>w\<close> starts with a letter and is no declared kind, the token is \<open>w\<close> with
  the letters, digits, underscores and dollar signs that follow it, of class \<open>other\<close>.
\<close>

theorem word_classes:
  assumes "length inputLine < maxTokenizationLineLength"
    and "tokenizeLine antimonyLanguage inputLine = Inr ts"
    and "tok \<in> set ts"
  shows "(type'' tok = ''keywords'' \<longrightarrow> text' tok \<in> set keywordNames)
       \<and> (type'' tok = ''annotation'' \<longrightarrow> text' tok \<in> set annotationNames)
       \<and> (type'' tok \<in> set declaredKinds \<longrightarrow> text' tok = type'' tok)
       \<and> (\<forall>w t. drop (offset tok) inputLine = w @ t \<and> w \<noteq> [] \<and> set w \<subseteq> set wordChars
                \<and> (t = [] \<or> hd t \<notin> set wordChars) \<longrightarrow>
            (w \<in> set keywordNames \<longrightarrow> text' tok = w \<and> type'' tok = ''keywords'')
          \<and> (w \<in> set wholeAnnotationNames \<longrightarrow> text' tok = w \<and> type'' tok = ''annotation'')
          \<and> (w \<in> set declaredKinds \<and> (t = [] \<or> hd t \<notin> set '':$'') \<longrightarrow>
               text' tok = w \<and> type'' tok = w)
          \<and> (w \<notin> set keywordNames \<and> \<not> annotationPrefixed w \<and> t \<noteq> [] \<and> hd t = CHR '':'' \<longrightarrow>
               text' tok = w @ '':'' \<and> type'' tok = ''react-remov'')
          \<and> (w \<notin> set keywordNames \<and> \<not> annotationPrefixed w \<and> w \<notin> set declaredKinds
               \<and> hd w \<in> set (lowerChars @ upperChars) \<and> (t = [] \<or> hd t \<noteq> CHR '':'') \<longrightarrow>
               text' tok = w @ takeWhile (\<lambda>c. c \<in> set (wordChars @ ''$'')) t
               \<and> type'' tok = ''other''))"
proof -
  from tokenizeLine_steps [OF assms(1)] assms(2,3)
  have s: "(text' tok, type'' tok) = stepAt ''source'' root (drop (offset tok) inputLine)"
    by auto
  note c = stepAt_classes [OF s]
  have "(w \<in> set keywordNames \<longrightarrow> text' tok = w \<and> type'' tok = ''keywords'')
          \<and> (w \<in> set wholeAnnotationNames \<longrightarrow> text' tok = w \<and> type'' tok = ''annotation'')
          \<and> (w \<in> set declaredKinds \<and> (t = [] \<or> hd t \<notin> set '':$'') \<longrightarrow>
               text' tok = w \<and> type'' tok = w)
          \<and> (w \<notin> set keywordNames \<and> \<not> annotationPrefixed w \<and> t \<noteq> [] \<and> hd t = CHR '':'' \<longrightarrow>
               text' tok = w @ '':'' \<and> type'' tok = ''react-remov'')
          \<and> (w \<notin> set keywordNames \<and> \<not> annotationPrefixed w \<and> w \<notin> set declaredKinds
               \<and> hd w \<in> set (lowerChars @ upperChars) \<and> (t = [] \<or> hd t \<noteq> CHR '':'') \<longrightarrow>
               text' tok = w @ takeWhile (\<lambda>c. c \<in> set (wordChars @ ''$'')) t
               \<and> type'' tok = ''other'')"
    if "drop (offset tok) inputLine = w @ t" "w \<noteq> []" "set w \<subseteq> set wordChars"
      "t = [] \<or> hd t \<notin> set wordChars" for w t
    using stepAt_word [OF that(2,3,4), of "text' tok" "type'' tok"] s that(1) by simp
  with c show ?thesis by blast
qed

theorem word_classes_witness:
  "length ''A has identity'' < maxTokenizationLineLength
   \<and> (\<exists>ts. tokenizeLine antimonyLanguage ''A has identity'' = Inr ts
         \<and> ts ! 2 \<in> set ts
         \<and> drop (offset (ts ! 2)) ''A has identity'' = ''has'' @ '' identity''
         \<and> set ''has'' \<subseteq> set wordChars \<and> hd '' identity'' \<notin> set wordChars
         \<and> ''has'' \<in> set keywordNames
         \<and> text' (ts ! 2) = ''has'' \<and> type'' (ts ! 2) = ''keywords''
         \<and> ts ! 4 \<in> set ts
         \<and> drop (offset (ts ! 4)) ''A has identity'' = ''identity'' @ []
         \<and> ''identity'' \<in> set wholeAnnotationNames
         \<and> text' (ts ! 4) = ''identity'' \<and> type'' (ts ! 4) = ''annotation''
         \<and> ts ! 0 \<in> set ts
         \<and> drop (offset (ts ! 0)) ''A has identity'' = ''A'' @ '' has identity''
         \<and> ''A'' \<notin> set keywordNames \<and> \<not> annotationPrefixed ''A'' \<and> ''A'' \<notin> set declaredKinds
         \<and> text' (ts ! 0) = ''A'' \<and> type'' (ts ! 0) = ''other'')
   \<and> (\<exists>ts. tokenizeLine antimonyLanguage ''species S1'' = Inr ts
         \<and> ts ! 0 \<in> set ts
         \<and> drop (offset (ts ! 0)) ''species S1'' = ''species'' @ '' S1''
         \<and> ''species'' \<in> set declaredKinds
         \<and> text' (ts ! 0) = ''species'' \<and> type'' (ts ! 0) = ''species'')
   \<and> (\<exists>ts. tokenizeLine antimonyLanguage ''J1: A -> B'' = Inr ts
         \<and> ts ! 0 \<in> set ts
         \<and> drop (offset (ts ! 0)) ''J1: A -> B'' = ''J1'' @ '': A -> B''
         \<and> ''J1'' \<notin> set keywordNames \<and> \<not> annotationPrefixed ''J1''
         \<and> text' (ts ! 0) = ''J1:'' \<and> type'' (ts ! 0) = ''react-remov'')"
proof -
  note chars = wordChars_def lowerChars_def upperChars_def digitChars_def
  note wc = word_classes [THEN conjunct2, THEN conjunct2, THEN conjunct2, rule_format]
  let ?ts1 = "[\<lparr>offset = 0, text' = ''A'', type'' = ''other''\<rparr>,
      \<lparr>offset = 1, text' = '' '', type'' = ''source''\<rparr>,
      \<lparr>offset = 2, text' = ''has'', type'' = ''keywords''\<rparr>,
      \<lparr>offset = 5, text' = '' '', type'' = ''source''\<rparr>,
      \<lparr>offset = 6, text' = ''identity'', type'' = ''annotation''\<rparr>]"
  let ?ts2 = "[\<lparr>offset = 0, text' = ''species'', type'' = ''species''\<rparr>,
      \<lparr>offset = 7, text' = '' '', type'' = ''source''\<rparr>,
      \<lparr>offset = 8, text' = ''S1'', type'' = ''other''\<rparr>]"
  let ?ts3 = "[\<lparr>offset = 0, text' = ''J1:'', type'' = ''react-remov''\<rparr>,
      \<lparr>offset = 3, text' = '' '', type'' = ''source''\<rparr>,
      \<lparr>offset = 4, text' = ''A'', type'' = ''other''\<rparr>,
      \<lparr>offset = 5, text' = '' '', type'' = ''source''\<rparr>,
      \<lparr>offset = 6, text' = ''->'', type'' = ''transform''\<rparr>,
      \<lparr>offset = 8, text' = '' '', type'' = ''source''\<rparr>,
      \<lparr>offset = 9, text' = ''B'', type'' = ''other''\<rparr>]"
  have s1: "length ''A has identity'' < maxTokenizationLineLength"
    and s2: "length ''species S1'' < maxTokenizationLineLength"
    and s3: "length ''J1: A -> B'' < maxTokenizationLineLength"
    by (simp_all add: maxTokenizationLineLength_def)
  have e1: "tokenizeLine antimonyLanguage ''A has identity'' = Inr ?ts1" by code_simp
  have e2: "tokenizeLine antimonyLanguage ''species S1'' = Inr ?ts2" by code_simp
  have e3: "tokenizeLine antimonyLanguage ''J1: A -> B'' = Inr ?ts3" by code_simp
  have k: "''has'' \<in> set keywordNames" by (simp add: keywordNames_def)
  have a: "''identity'' \<in> set wholeAnnotationNames" by code_simp
  have d: "''species'' \<in> set declaredKinds" by (simp add: declaredKinds_def)
  have n1: "''A'' \<notin> set keywordNames" "\<not> annotationPrefixed ''A''" "''A'' \<notin> set declaredKinds"
    by code_simp+
  have n3: "''J1'' \<notin> set keywordNames" "\<not> annotationPrefixed ''J1''"
    by code_simp+
  have h1: "set ''has'' \<subseteq> set wordChars \<and> hd '' identity'' \<notin> set wordChars"
    by (simp add: chars)
  have w1: "text' (?ts1 ! 2) = ''has'' \<and> type'' (?ts1 ! 2) = ''keywords''"
    using wc [OF s1 e1, of "?ts1 ! 2" "''has''" "'' identity''"] k h1 by simp
  have w2: "text' (?ts1 ! 4) = ''identity'' \<and> type'' (?ts1 ! 4) = ''annotation''"
    using wc [OF s1 e1, of "?ts1 ! 4" "''identity''" "[]"] a by (simp add: chars)
  have w3: "text' (?ts1 ! 0) = ''A'' \<and> type'' (?ts1 ! 0) = ''other''"
    using wc [OF s1 e1, of "?ts1 ! 0" "''A''" "'' has identity''"] n1 by (simp add: chars)
  have w4: "text' (?ts2 ! 0) = ''species'' \<and> type'' (?ts2 ! 0) = ''species''"
    using wc [OF s2 e2, of "?ts2 ! 0" "''species''" "'' S1''"] d by (simp add: chars)
  have w5: "text' (?ts3 ! 0) = ''J1:'' \<and> type'' (?ts3 ! 0) = ''react-remov''"
    using wc [OF s3 e3, of "?ts3 ! 0" "''J1''" "'': A -> B''"] n3 by (simp add: chars)
  have c1: "\<exists>ts. tokenizeLine antimonyLanguage ''A has identity'' = Inr ts
         \<and> ts ! 2 \<in> set ts
         \<and> drop (offset (ts ! 2)) ''A has identity'' = ''has'' @ '' identity''
         \<and> set ''has'' \<subseteq> set wordChars \<and> hd '' identity'' \<notin> set wordChars
         \<and> ''has'' \<in> set keywordNames
         \<and> text' (ts ! 2) = ''has'' \<and> type'' (ts ! 2) = ''keywords''
         \<and> ts ! 4 \<in> set ts
         \<and> drop (offset (ts ! 4)) ''A has identity'' = ''identity'' @ []
         \<and> ''identity'' \<in> set wholeAnnotationNames
         \<and> text' (ts ! 4) = ''identity'' \<and> type'' (ts ! 4) = ''annotation''
         \<and> ts ! 0 \<in> set ts
         \<and> drop (offset (ts ! 0)) ''A has identity'' = ''A'' @ '' has identity''
         \<and> ''A'' \<notin> set keywordNames \<and> \<not> annotationPrefixed ''A'' \<and> ''A'' \<notin> set declaredKinds
         \<and> text' (ts ! 0) = ''A'' \<and> type'' (ts ! 0) = ''other''"
    using e1 w1 w2 w3 k a n1 h1 by (intro exI [of _ ?ts1]) simp
  have c2: "\<exists>ts. tokenizeLine antimonyLanguage ''species S1'' = Inr ts
         \<and> ts ! 0 \<in> set ts
         \<and> drop (offset (ts ! 0)) ''species S1'' = ''species'' @ '' S1''
         \<and> ''species'' \<in> set declaredKinds
         \<and> text' (ts ! 0) = ''species'' \<and> type'' (ts ! 0) = ''species''"
    using e2 w4 d by (intro exI [of _ ?ts2]) simp
  have c3: "\<exists>ts. tokenizeLine antimonyLanguage ''J1: A -> B'' = Inr ts
         \<and> ts ! 0 \<in> set ts
         \<and> drop (offset (ts ! 0)) ''J1: A -> B'' = ''J1'' @ '': A -> B''
         \<and> ''J1'' \<notin> set keywordNames \<and> \<not> annotationPrefixed ''J1''
         \<and> text' (ts ! 0) = ''J1:'' \<and> type'' (ts ! 0) = ''react-remov''"
    using e3 w5 n3 by (intro exI [of _ ?ts3]) simp
  from s1 c1 c2 c3 show ?thesis by blast
qed

text \<open>
  The claim as stated says that every identifier outside the keyword classes is a generic
  identifier, and that the listed annotation names, \<open>isVersionOf\<close> and
  \<open>isDerivedFrom\<close> among them, are annotation tokens.  The name of a reaction is not a
  generic identifier: the rule for a word followed by a colon comes before the rule for
  identifiers, and \<open>J1\<close> in \<open>J1: A -> B\<close> is, with its colon, a token of class
  \<open>react-remov\<close>.  The rule for annotations has no word boundaries and lists \<open>is\<close>
  before the longer names that begin with it: \<open>isVersionOf\<close> and \<open>isDerivedFrom\<close>
  are split after \<open>is\<close>, alone on a line or after a subject, and so is the identifier
  \<open>island\<close>.  A word that starts with an underscore is not matched by the rule for
  identifiers, and a word on a line that reaches the tokenization limit is not classified
  at all.
\<close>

theorem word_classes_counterexample:
  "tokenizeLine antimonyLanguage ''J1: A -> B'' =
     Inr [\<lparr>offset = 0, text' = ''J1:'', type'' = ''react-remov''\<rparr>,
          \<lparr>offset = 3, text' = '' '', type'' = ''source''\<rparr>,
          \<lparr>offset = 4, text' = ''A'', type'' = ''other''\<rparr>,
          \<lparr>offset = 5, text' = '' '', type'' = ''source''\<rparr>,
          \<lparr>offset = 6, text' = ''->'', type'' = ''transform''\<rparr>,
          \<lparr>offset = 8, text' = '' '', type'' = ''source''\<rparr>,
          \<lparr>offset = 9, text' = ''B'', type'' = ''other''\<rparr>]
   \<and> lineTokens antimonyLanguage ''J1: A -> B''
     = Inr [(0, ''react-remov''), (3, ''source''), (4, ''other''), (5, ''source''),
            (6, ''transform''), (8, ''source''), (9, ''other'')]
   \<and> tokenizeLine antimonyLanguage ''isVersionOf'' =
     Inr [\<lparr>offset = 0, text' = ''is'', type'' = ''annotation''\<rparr>,
          \<lparr>offset = 2, text' = ''VersionOf'', type'' = ''other''\<rparr>]
   \<and> tokenizeLine antimonyLanguage ''isDerivedFrom'' =
     Inr [\<lparr>offset = 0, text' = ''is'', type'' = ''annotation''\<rparr>,
          \<lparr>offset = 2, text' = ''DerivedFrom'', type'' = ''other''\<rparr>]
   \<and> lineTokens antimonyLanguage ''S1 isVersionOf X''
     = Inr [(0, ''other''), (2, ''source''), (3, ''annotation''), (5, ''other''),
            (14, ''source''), (15, ''other'')]
   \<and> tokenizeLine antimonyLanguage ''island'' =
     Inr [\<lparr>offset = 0, text' = ''is'', type'' = ''annotation''\<rparr>,
          \<lparr>offset = 2, text' = ''land'', type'' = ''other''\<rparr>]
   \<and> tokenizeLine antimonyLanguage ''_x'' =
     Inr [\<lparr>offset = 0, text' = ''_'', type'' = ''source''\<rparr>,
          \<lparr>offset = 1, text' = ''x'', type'' = ''other''\<rparr>]
   \<and> tokenizeLine antimonyLanguage (replicate 19998 CHR '' '' @ ''at'') =
     Inr [\<lparr>offset = 0, text' = replicate 19998 CHR '' '' @ ''at'', type'' = []\<rparr>]"
proof -
  have a: "tokenizeLine antimonyLanguage ''J1: A -> B'' =
     Inr [\<lparr>offset = 0, text' = ''J1:'', type'' = ''react-remov''\<rparr>,
          \<lparr>offset = 3, text' = '' '', type'' = ''source''\<rparr>,
          \<lparr>offset = 4, text' = ''A'', type'' = ''other''\<rparr>,
          \<lparr>offset = 5, text' = '' '', type'' = ''source''\<rparr>,
          \<lparr>offset = 6, text' = ''->'', type'' = ''transform''\<rparr>,
          \<lparr>offset = 8, text' = '' '', type'' = ''source''\<rparr>,
          \<lparr>offset = 9, text' = ''B'', type'' = ''other''\<rparr>]" by code_simp
  have b: "lineTokens antimonyLanguage ''J1: A -> B''
     = Inr [(0, ''react-remov''), (3, ''source''), (4, ''other''), (5, ''source''),
            (6, ''transform''), (8, ''source''), (9, ''other'')]"
    by (simp add: lineTokens_def a)
  have c: "tokenizeLine antimonyLanguage ''isVersionOf'' =
     Inr [\<lparr>offset = 0, text' = ''is'', type'' = ''annotation''\<rparr>,
          \<lparr>offset = 2, text' = ''VersionOf'', type'' = ''other''\<rparr>]" by code_simp
  have d: "tokenizeLine antimonyLanguage ''isDerivedFrom'' =
     Inr [\<lparr>offset = 0, text' = ''is'', type'' = ''annotation''\<rparr>,
          \<lparr>offset = 2, text' = ''DerivedFrom'', type'' = ''other''\<rparr>]" by code_simp
  have e: "lineTokens antimonyLanguage ''S1 isVersionOf X''
     = Inr [(0, ''other''), (2, ''source''), (3, ''annotation''), (5, ''other''),
            (14, ''source''), (15, ''other'')]" by code_simp
  have f: "tokenizeLine antimonyLanguage ''island'' =
     Inr [\<lparr>offset = 0, text' = ''is'', type'' = ''annotation''\<rparr>,
          \<lparr>offset = 2, text' = ''land'', type'' = ''other''\<rparr>]" by code_simp
  have g: "tokenizeLine antimonyLanguage ''_x'' =
     Inr [\<lparr>offset = 0, text' = ''_'', type'' = ''source''\<rparr>,
          \<lparr>offset = 1, text' = ''x'', type'' = ''other''\<rparr>]" by code_simp
  have h: "tokenizeLine antimonyLanguage (replicate 19998 CHR '' '' @ ''at'') =
     Inr [\<lparr>offset = 0, text' = replicate 19998 CHR '' '' @ ''at'', type'' = []\<rparr>]"
    by (simp add: tokenizeLine_def maxTokenizationLineLength_def nullTokenize_def)
  from a b c d e f g h show ?thesis by blast
qed

text \<open>
  Claim C8 says that every numeric literal is a single number token.  The rule for
  numbers lists the form \<open>\.\d+\<close>, but the word boundary in front of the alternatives
  cannot hold before a dot at the start of the text: the literal \<open>.5\<close> is a
  \<open>source\<close> token for the dot and a number token for the digit.
\<close>

theorem leading_dot_literal_is_split:
  "regexMatch numberRegex ''.5'' = None
   \<and> tokenizeLine antimonyLanguage ''.5'' =
     Inr [\<lparr>offset = 0, text' = ''.'', type'' = ''source''\<rparr>,
          \<lparr>offset = 1, text' = ''5'', type'' = ''number''\<rparr>]
   \<and> lineTokens antimonyLanguage ''.5'' = Inr [(0, ''source''), (1, ''number'')]"
proof -
  have a: "regexMatch numberRegex ''.5'' = None" by code_simp
  have b: "tokenizeLine antimonyLanguage ''.5'' =
     Inr [\<lparr>offset = 0, text' = ''.'', type'' = ''source''\<rparr>,
          \<lparr>offset = 1, text' = ''5'', type'' = ''number''\<rparr>]" by code_simp
  have c: "lineTokens antimonyLanguage ''.5'' = Inr [(0, ''source''), (1, ''number'')]"
    by (simp add: lineTokens_def b)
  from a b c show ?thesis by blast
qed

subsection \<open>Sample lines\<close>

text \<open>
  The classes of some words and literals that stand alone on a line, for comparison
  with the inputs that are split.
\<close>

lemma keyword_samples:
  "map (lineTokens antimonyLanguage) [''at'', ''in'', ''import'', ''has'']
     = replicate 4 (Inr [(0, ''keywords'')])"
  "map (lineTokens antimonyLanguage) [''identity'', ''hasPart'', ''encodes'', ''occursIn'']
     = replicate 4 (Inr [(0, ''annotation'')])"
  "map (lineTokens antimonyLanguage) [''const'', ''unit'', ''var'', ''species'']
     = [Inr [(0, ''const'')], Inr [(0, ''unit'')], Inr [(0, ''var'')], Inr [(0, ''species'')]]"
  "map (lineTokens antimonyLanguage) [''function'', ''model'', ''compartment'', ''end'']
     = [Inr [(0, ''function'')], Inr [(0, ''model'')], Inr [(0, ''compartment'')],
        Inr [(0, ''end'')]]"
  "map (lineTokens antimonyLanguage) [''k1'', ''ProteinD''] = replicate 2 (Inr [(0, ''other'')])"
  by code_simp+

lemma number_samples:
  "map (lineTokens antimonyLanguage) [''42'', ''3.14'', ''0x1F'', ''0o17'']
     = replicate 4 (Inr [(0, ''number'')])"
  "map (lineTokens antimonyLanguage) [''0b101'', ''1e5'', ''1e-5'']
     = replicate 3 (Inr [(0, ''number'')])"
  by code_simp+


section \<open>Results on the recommendation modal\<close>

subsection \<open>Cutoff input\<close>

lemma handleCutoff_inUnitRange:
  "inUnitRange c \<Longrightarrow> inUnitRange (handleCutoff pf e c)"
  unfolding handleCutoff_def inUnitRange_def js_ge_def Let_def
  by (cases "pf e") auto

lemma cutoffAfter_inUnitRange:
  "inUnitRange c \<Longrightarrow> inUnitRange (cutoffAfter pf c es)"
  by (induction es arbitrary: c) (simp_all add: handleCutoff_inUnitRange)

lemma handleCutoff_cases:
  "handleCutoff pf e c = (if inUnitRange (pf e) then pf e else c)"
  unfolding handleCutoff_def inUnitRange_def js_ge_def Let_def
  by (cases "pf e") auto

text \<open>
  Claim C9.  The cutoff state starts at 0.01 and lies within [0.0, 1.0] after every
  sequence of change events: an event whose input parses to a number outside that
  range, or to \<open>NaN\<close>, leaves the stored cutoff unchanged.
\<close>

theorem cutoff_stays_in_unit_range:
  "initialCutoff = Finite (1 / 100)
   \<and> inUnitRange initialCutoff
   \<and> inUnitRange (cutoffAfter parseFloat initialCutoff events)
   \<and> (\<not> inUnitRange (parseFloat e) \<longrightarrow> handleCutoff parseFloat e c = c)
   \<and> (parseFloat e = NaN \<longrightarrow> handleCutoff parseFloat e c = c)"
proof -
  have i: "inUnitRange initialCutoff"
    by (simp add: initialCutoff_def inUnitRange_def)
  have n: "\<not> inUnitRange NaN" by (simp add: inUnitRange_def)
  show ?thesis
    using i cutoffAfter_inUnitRange [OF i] n
    by (auto simp add: handleCutoff_cases initialCutoff_def)
qed

theorem cutoff_stays_in_unit_range_witness:
  "\<not> inUnitRange (sampleParseFloat ''2'') \<and> sampleParseFloat ''abc'' = NaN
   \<and> handleCutoff sampleParseFloat ''2'' (Finite (1 / 2)) = Finite (1 / 2)
   \<and> handleCutoff sampleParseFloat ''abc'' (Finite (1 / 2)) = Finite (1 / 2)
   \<and> inUnitRange (cutoffAfter sampleParseFloat initialCutoff [''0.5'', ''2'', ''abc''])"
  using cutoff_stays_in_unit_range
          [of sampleParseFloat "[''0.5'', ''2'', ''abc'']" "''2''" "Finite (1 / 2)"]
        cutoff_stays_in_unit_range [of sampleParseFloat "[]" "''abc''" "Finite (1 / 2)"]
  by (simp add: sampleParseFloat_def inUnitRange_def)

subsection \<open>Low matches\<close>

lemma groupStep_ok:
  "id' r \<notin> set objectPrototypeKeys \<Longrightarrow>
   groupStep g r = Inr (g(id' r \<mapsto> (case g (id' r) of None \<Rightarrow> [] | Some l \<Rightarrow> l) @ [r]))"
  by (simp add: groupStep_def split: option.splits)

lemma reduceGroups_ok:
  "\<forall>r\<in>set recs. id' r \<notin> set objectPrototypeKeys \<Longrightarrow>
   reduceGroups g recs =
     Inr (\<lambda>k. if filter (\<lambda>r. id' r = k) recs = [] then g k
              else Some ((case g k of None \<Rightarrow> [] | Some l \<Rightarrow> l) @ filter (\<lambda>r. id' r = k) recs))"
proof (induction recs arbitrary: g)
  case Nil
  then show ?case by simp
next
  case (Cons r recs)
  have s: "groupStep g r = Inr (g(id' r \<mapsto> (case g (id' r) of None \<Rightarrow> [] | Some l \<Rightarrow> l) @ [r]))"
    using Cons.prems by (simp add: groupStep_ok)
  have rest: "\<forall>r\<in>set recs. id' r \<notin> set objectPrototypeKeys"
    using Cons.prems by simp
  show ?case
    by (simp add: s Cons.IH [OF rest] fun_eq_iff)
qed

lemma groupedRecommendations_ok:
  "\<forall>r\<in>set recs. id' r \<notin> set objectPrototypeKeys \<Longrightarrow>
   groupedRecommendations recs =
     Inr (\<lambda>k. if filter (\<lambda>r. id' r = k) recs = [] then None
              else Some (filter (\<lambda>r. id' r = k) recs))"
  by (simp add: groupedRecommendations_def reduceGroups_ok cong: if_cong)

lemma find_map_preserved:
  "(\<And>x. P (f x) = P x) \<Longrightarrow> find P (map f xs) = map_option f (find P xs)"
  by (induction xs) simp_all

lemma find_distinct_key:
  "distinct (map k xs) \<Longrightarrow> x \<in> set xs \<Longrightarrow> find (\<lambda>r. k r = k x) xs = Some x"
  by (induction xs) (auto simp: image_iff)

lemma checkLowMatch_map:
  "checkLowMatch g = map (lowMatchOf (filter (\<lambda>rec. js_eq (existing rec) (Finite 0)) g)) g"
  by (simp add: checkLowMatch_def lowMatchOf_def Let_def)

lemma key_lowMatchOf [simp]:
  "getRecommendationKey (lowMatchOf zs r) = getRecommendationKey r"
  by (simp add: getRecommendationKey_def lowMatchOf_def)

lemma processRecommendation_ok:
  assumes g: "groups (id' rec) = Some (filter (\<lambda>r. id' r = id' rec) recs)"
      and d: "distinct (map (\<lambda>r. (id' r, annotation r)) recs)"
      and m: "rec \<in> set recs"
  shows "processRecommendation groups rec =
           Inr (rec\<lparr>isLowMatch := isLowMatch
                  (lowMatchOf (filter (\<lambda>z. js_eq (existing z) (Finite 0))
                     (filter (\<lambda>r. id' r = id' rec) recs)) rec)\<rparr>)"
proof -
  let ?grp = "filter (\<lambda>r. id' r = id' rec) recs"
  have dg: "distinct (map (\<lambda>r. (id' r, annotation r)) ?grp)"
    using d by (simp add: distinct_map_filter)
  have mg: "rec \<in> set ?grp" using m by simp
  have "find (\<lambda>r. getRecommendationKey r = getRecommendationKey rec) ?grp
        = find (\<lambda>r. (id' r, annotation r) = (id' rec, annotation rec)) ?grp"
    by (rule find_cong) (auto simp: getRecommendationKey_def)
  also have "\<dots> = Some rec"
    using find_distinct_key [OF dg mg] by simp
  finally have f: "find (\<lambda>r. getRecommendationKey r = getRecommendationKey rec) ?grp = Some rec" .
  show ?thesis
    by (simp add: processRecommendation_def g checkLowMatch_map find_map_preserved f)
qed

lemma mapRecommendations_ok:
  "(\<And>r. r \<in> set xs \<Longrightarrow> processRecommendation groups r = Inr (h r)) \<Longrightarrow>
   mapRecommendations groups xs = Inr (map h xs)"
  by (induction xs) simp_all

lemma processedRecommendations_ok:
  assumes p: "\<forall>r\<in>set recomTable. id' r \<notin> set objectPrototypeKeys"
      and d: "distinct (map (\<lambda>r. (id' r, annotation r)) recomTable)"
  shows "processedRecommendations recomTable =
           Inr (map (\<lambda>rec. rec\<lparr>isLowMatch := isLowMatch
                  (lowMatchOf (filter (\<lambda>z. js_eq (existing z) (Finite 0))
                     (filter (\<lambda>r. id' r = id' rec) recomTable)) rec)\<rparr>) recomTable)"
proof -
  let ?groups = "\<lambda>k. if filter (\<lambda>r. id' r = k) recomTable = [] then None
              else Some (filter (\<lambda>r. id' r = k) recomTable)"
  have g: "groupedRecommendations recomTable = Inr ?groups"
    by (rule groupedRecommendations_ok [OF p])
  have "mapRecommendations ?groups recomTable = Inr (map (\<lambda>rec. rec\<lparr>isLowMatch := isLowMatch
                  (lowMatchOf (filter (\<lambda>z. js_eq (existing z) (Finite 0))
                     (filter (\<lambda>r. id' r = id' rec) recomTable)) rec)\<rparr>) recomTable)"
  proof (rule mapRecommendations_ok)
    fix r assume m: "r \<in> set recomTable"
    then have "filter (\<lambda>x. id' x = id' r) recomTable \<noteq> []"
      by (auto simp: filter_empty_conv)
    then have "?groups (id' r) = Some (filter (\<lambda>x. id' x = id' r) recomTable)" by simp
    then show "processRecommendation ?groups r = Inr (r\<lparr>isLowMatch := isLowMatch
                  (lowMatchOf (filter (\<lambda>z. js_eq (existing z) (Finite 0))
                     (filter (\<lambda>x. id' x = id' r) recomTable)) r)\<rparr>)"
      by (rule processRecommendation_ok [OF _ d m])
  qed
  then show ?thesis by (simp add: processedRecommendations_def g)
qed

text \<open>
  Claim C10, as the code has it.  Provided no two rows of the table share both id and
  annotation, and no id names a property inherited from \<open>Object.prototype\<close>, the
  computation returns a table of the same length that differs from the input in the
  \<open>isLowMatch\<close> flags only; a row with \<open>existing === 1\<close> is flagged exactly when
  some row with the same id and \<open>existing === 0\<close> has a strictly greater match score,
  and a row with \<open>existing === 0\<close> keeps its flag.
\<close>

theorem lowMatch_flags:
  assumes p: "\<forall>r\<in>set recomTable. id' r \<notin> set objectPrototypeKeys"
      and d: "distinct (map (\<lambda>r. (id' r, annotation r)) recomTable)"
  shows "\<exists>out. processedRecommendations recomTable = Inr out
           \<and> length out = length recomTable
           \<and> (\<forall>i<length recomTable.
                 out ! i = (recomTable ! i)\<lparr>isLowMatch := isLowMatch (out ! i)\<rparr>
               \<and> (js_eq (existing (recomTable ! i)) (Finite 1) \<longrightarrow>
                    isLowMatch (out ! i) =
                      (\<exists>z\<in>set recomTable. id' z = id' (recomTable ! i)
                          \<and> js_eq (existing z) (Finite 0)
                          \<and> js_lt (matchScore (recomTable ! i)) (matchScore z)))
               \<and> (js_eq (existing (recomTable ! i)) (Finite 0) \<longrightarrow>
                    isLowMatch (out ! i) = isLowMatch (recomTable ! i)))"
proof -
  have e: "\<not> (js_eq x (Finite 0) \<and> js_eq x (Finite 1))" for x
    by (simp add: js_eq_def)
  show ?thesis
    unfolding processedRecommendations_ok [OF p d]
    using e by (auto simp: lowMatchOf_def list_ex_iff)
qed

theorem lowMatch_flags_witness:
  "list_all (\<lambda>r. id' r \<notin> set objectPrototypeKeys) sampleTable
   \<and> distinct (map (\<lambda>r. (id' r, annotation r)) sampleTable)
   \<and> js_eq (existing (sampleTable ! 0)) (Finite 1)
   \<and> js_eq (existing (sampleTable ! 1)) (Finite 0)
   \<and> (\<exists>out. processedRecommendations sampleTable = Inr out
         \<and> isLowMatch (out ! 0) \<and> \<not> isLowMatch (out ! 1) \<and> \<not> isLowMatch (out ! 2))"
proof -
  have p: "\<forall>r\<in>set sampleTable. id' r \<notin> set objectPrototypeKeys"
    by (simp add: sampleTable_def sampleRow_def objectPrototypeKeys_def)
  have d: "distinct (map (\<lambda>r. (id' r, annotation r)) sampleTable)"
    by (simp add: sampleTable_def sampleRow_def)
  obtain out where o: "processedRecommendations sampleTable = Inr out"
    and f: "\<forall>i<length sampleTable.
                 out ! i = (sampleTable ! i)\<lparr>isLowMatch := isLowMatch (out ! i)\<rparr>
               \<and> (js_eq (existing (sampleTable ! i)) (Finite 1) \<longrightarrow>
                    isLowMatch (out ! i) =
                      (\<exists>z\<in>set sampleTable. id' z = id' (sampleTable ! i)
                          \<and> js_eq (existing z) (Finite 0)
                          \<and> js_lt (matchScore (sampleTable ! i)) (matchScore z)))
               \<and> (js_eq (existing (sampleTable ! i)) (Finite 0) \<longrightarrow>
                    isLowMatch (out ! i) = isLowMatch (sampleTable ! i))"
    using lowMatch_flags [OF p d] by blast
  have l: "length sampleTable = 3" by (simp add: sampleTable_def)
  have f0: "isLowMatch (out ! 0)"
    using f [rule_format, of 0] by (simp add: sampleTable_def sampleRow_def js_eq_def)
  have f1: "\<not> isLowMatch (out ! 1)"
    using f [rule_format, of 1] by (simp add: sampleTable_def sampleRow_def js_eq_def)
  have f2: "\<not> isLowMatch (out ! 2)"
    using f [rule_format, of 2] by (simp add: sampleTable_def sampleRow_def js_eq_def)
  have e0: "js_eq (existing (sampleTable ! 0)) (Finite 1)"
    by (simp add: sampleTable_def sampleRow_def js_eq_def)
  have e1: "js_eq (existing (sampleTable ! 1)) (Finite 0)"
    by (simp add: sampleTable_def sampleRow_def js_eq_def)
  show ?thesis using p d e0 e1 o f0 f1 f2 by (simp add: list_all_iff)
qed

text \<open>
  The claim as stated fails on a table in which two rows share id and annotation: the
  second row has \<open>existing === 0\<close> and an unset flag, yet \<open>find\<close> returns the first
  row of the group with the same key, and the second row comes out flagged.  A table
  with the id \<open>constructor\<close> makes the grouping throw.
\<close>

theorem lowMatch_flags_counterexample:
  "existing (sampleRow ''S1'' ''CHEBI:1'' (9 / 10) 0) = Finite 0
   \<and> isLowMatch (sampleRow ''S1'' ''CHEBI:1'' (9 / 10) 0) = False
   \<and> processedRecommendations
       [sampleRow ''S1'' ''CHEBI:1'' (1 / 10) 1, sampleRow ''S1'' ''CHEBI:1'' (9 / 10) 0]
     = Inr [(sampleRow ''S1'' ''CHEBI:1'' (1 / 10) 1)\<lparr>isLowMatch := True\<rparr>,
            (sampleRow ''S1'' ''CHEBI:1'' (9 / 10) 0)\<lparr>isLowMatch := True\<rparr>]
   \<and> processedRecommendations [sampleRow ''constructor'' ''CHEBI:1'' (1 / 10) 1]
     = Inl TypeError"
  by (simp add: processedRecommendations_def groupedRecommendations_def groupStep_def
        processRecommendation_def checkLowMatch_def getRecommendationKey_def
        sampleRow_def js_eq_def objectPrototypeKeys_def)

section \<open>Results on the position index\<close>

lemma latestFrom_append:
  "latestFrom name found (xs @ [a]) =
     (if subjectName a = name then Some a else latestFrom name found xs)"
  by (induction xs arbitrary: found) simp_all

lemma latestFrom_last:
  "latestFrom name found annotations =
     (case annotationsFor name annotations of [] \<Rightarrow> found | b # bs \<Rightarrow> Some (last (b # bs)))"
proof (induction annotations rule: rev_induct)
  case Nil
  then show ?case by (simp add: annotationsFor_def)
next
  case (snoc a annotations)
  then show ?case
    by (simp add: latestFrom_append annotationsFor_def split: list.splits)
qed

lemma last_filter_index:
  assumes "filter P xs \<noteq> []"
  shows "\<exists>i<length xs. last (filter P xs) = xs ! i \<and> P (xs ! i)
           \<and> (\<forall>j<length xs. P (xs ! j) \<longrightarrow> j \<le> i)"
  using assms
proof (induction xs rule: rev_induct)
  case Nil
  then show ?case by simp
next
  case (snoc x xs)
  show ?case
  proof (cases "P x")
    case True
    have "last (filter P (xs @ [x])) = (xs @ [x]) ! length xs" using True by simp
    moreover have "P ((xs @ [x]) ! length xs)" using True by simp
    moreover have "\<forall>j<length (xs @ [x]). P ((xs @ [x]) ! j) \<longrightarrow> j \<le> length xs" by simp
    ultimately show ?thesis by (intro exI [of _ "length xs"]) simp
  next
    case False
    with snoc.prems have ne: "filter P xs \<noteq> []" by simp
    from snoc.IH [OF ne] obtain i where i: "i < length xs" "last (filter P xs) = xs ! i"
      "P (xs ! i)" "\<forall>j<length xs. P (xs ! j) \<longrightarrow> j \<le> i" by blast
    have "\<forall>j<length (xs @ [x]). P ((xs @ [x]) ! j) \<longrightarrow> j \<le> i"
    proof (intro allI impI)
      fix j assume j: "j < length (xs @ [x])" and p: "P ((xs @ [x]) ! j)"
      show "j \<le> i"
      proof (cases "j < length xs")
        case True
        then show ?thesis using p i(4) by (simp add: nth_append)
      next
        case False
        with j have "j = length xs" by simp
        with p \<open>\<not> P x\<close> show ?thesis by simp
      qed
    qed
    then show ?thesis using i False
      by (intro exI [of _ i]) (simp add: nth_append)
  qed
qed

text \<open>
  Claim C1.  For every name with at least one matching annotation statement,
  \<open>latestAnnotationFor\<close> returns the matching statement that occurs last in document
  order: no matching statement has a greater index, and when the statements are listed
  by increasing start position it is the one with the highest position.  The
  navigation targets the line of that statement.
\<close>

theorem latestAnnotationFor_last:
  assumes "annotationsFor name annotations \<noteq> []"
  shows "\<exists>i<length annotations.
           latestAnnotationFor name annotations = Some (annotations ! i)
         \<and> subjectName (annotations ! i) = name
         \<and> (\<forall>j<length annotations. subjectName (annotations ! j) = name \<longrightarrow> j \<le> i)
         \<and> (sorted_wrt (\<lambda>a b. positionLess (start (range' a)) (start (range' b))) annotations \<longrightarrow>
              (\<forall>j<length annotations. subjectName (annotations ! j) = name \<longrightarrow> j \<noteq> i \<longrightarrow>
                 positionLess (start (range' (annotations ! j))) (start (range' (annotations ! i)))))
         \<and> navigateToAnnotation name annotations = Some (line (start (range' (annotations ! i))))"
proof -
  from assms obtain b bs where bs: "annotationsFor name annotations = b # bs"
    by (cases "annotationsFor name annotations") auto
  have l: "latestAnnotationFor name annotations = Some (last (annotationsFor name annotations))"
    by (simp add: latestAnnotationFor_def latestFrom_last bs)
  from last_filter_index [of "\<lambda>a. subjectName a = name" annotations] assms
  obtain i where i: "i < length annotations"
    "last (annotationsFor name annotations) = annotations ! i"
    "subjectName (annotations ! i) = name"
    "\<forall>j<length annotations. subjectName (annotations ! j) = name \<longrightarrow> j \<le> i"
    unfolding annotationsFor_def by blast
  have s: "positionLess (start (range' (annotations ! j))) (start (range' (annotations ! i)))"
    if "sorted_wrt (\<lambda>a b. positionLess (start (range' a)) (start (range' b))) annotations"
      and "j < length annotations" and "subjectName (annotations ! j) = name" and "j \<noteq> i" for j
  proof -
    have "j \<le> i" using i(4) that(2,3) by blast
    with that(4) have "j < i" by simp
    then show ?thesis using that(1) i(1) by (simp add: sorted_wrt_iff_nth_less)
  qed
  have n: "navigateToAnnotation name annotations = Some (line (start (range' (annotations ! i))))"
    by (simp add: navigateToAnnotation_def l i(2))
  show ?thesis
    using i l s n by (intro exI [of _ i]) simp
qed

theorem latestAnnotationFor_last_witness:
  "annotationsFor ''ProteinD'' sampleAnnotations \<noteq> []
   \<and> latestAnnotationFor ''ProteinD'' sampleAnnotations = Some (sampleAnnotations ! 2)
   \<and> navigateToAnnotation ''ProteinD'' sampleAnnotations = Some 66"
proof -
  have ne: "annotationsFor ''ProteinD'' sampleAnnotations \<noteq> []"
    by (simp add: annotationsFor_def sampleAnnotations_def annotationAt_def)
  from latestAnnotationFor_last [OF ne] obtain i where i: "i < length sampleAnnotations"
    "latestAnnotationFor ''ProteinD'' sampleAnnotations = Some (sampleAnnotations ! i)"
    "\<forall>j<length sampleAnnotations. subjectName (sampleAnnotations ! j) = ''ProteinD'' \<longrightarrow> j \<le> i"
    "navigateToAnnotation ''ProteinD'' sampleAnnotations
       = Some (line (start (range' (sampleAnnotations ! i))))"
    by blast
  have "2 \<le> i" using i(3) [rule_format, of 2]
    by (simp add: sampleAnnotations_def annotationAt_def)
  moreover have "i < 3" using i(1) by (simp add: sampleAnnotations_def)
  ultimately have "i = 2" by simp
  with i(2,4) ne show ?thesis by (simp add: sampleAnnotations_def annotationAt_def)
qed

end
